theory Spec2Isabelle
  imports Main
begin

section \<open>JavaScript values and their serialization\<close>

text \<open>
  The registry stores arbitrary JavaScript values. The fragment modelled here is the
  finite, acyclic one built from \<open>undefined\<close>, \<open>null\<close>, booleans, integer numbers,
  strings, arrays, plain objects (their own enumerable properties, in enumeration order,
  as an association list) and functions (a function object is identified by a number,
  its identity on the JavaScript heap).
\<close>

datatype jsval =
    JUndefined
  | JNull
  | JBool bool
  | JNum int
  | JStr string
  | JArr "jsval list"
  | JObj "(string \<times> jsval) list"
  | JFun nat

text \<open>
  \<open>JSON.stringify\<close> on that fragment. It yields \<open>undefined\<close> (here \<open>None\<close>) for
  \<open>undefined\<close> and for functions; inside an array such an element is written
  \<open>null\<close>, inside an object the property is left out.
\<close>

definition digit_char :: "nat \<Rightarrow> char" where
  "digit_char n = char_of (48 + n)"

fun show_nat :: "nat \<Rightarrow> string" where
  "show_nat n = (if n < 10 then [digit_char n] else show_nat (n div 10) @ [digit_char (n mod 10)])"

declare show_nat.simps [simp del]

definition show_int :: "int \<Rightarrow> string" where
  "show_int i = (if i < 0 then CHR ''-'' # show_nat (nat (- i)) else show_nat (nat i))"

definition hex_digit :: "nat \<Rightarrow> char" where
  "hex_digit n = (if n < 10 then char_of (48 + n) else char_of (87 + n))"

definition quote_char :: "char \<Rightarrow> string" where
  "quote_char c =
     (if c = CHR 0x22 then [CHR 0x5C, CHR 0x22]
      else if c = CHR 0x5C then [CHR 0x5C, CHR 0x5C]
      else if c = CHR 0x08 then [CHR 0x5C, CHR ''b'']
      else if c = CHR 0x09 then [CHR 0x5C, CHR ''t'']
      else if c = CHR 0x0A then [CHR 0x5C, CHR ''n'']
      else if c = CHR 0x0C then [CHR 0x5C, CHR ''f'']
      else if c = CHR 0x0D then [CHR 0x5C, CHR ''r'']
      else if (of_char c :: nat) < 32
        then [CHR 0x5C, CHR ''u'', CHR ''0'', CHR ''0'',
              hex_digit (of_char c div 16), hex_digit (of_char c mod 16)]
      else [c])"

definition quote_string :: "string \<Rightarrow> string" where
  "quote_string s = CHR 0x22 # concat (map quote_char s) @ [CHR 0x22]"

fun join_comma :: "string list \<Rightarrow> string" where
  "join_comma [] = []"
| "join_comma [x] = x"
| "join_comma (x # y # ys) = x @ CHR '','' # join_comma (y # ys)"

fun JSON_stringify :: "jsval \<Rightarrow> string option" where
  "JSON_stringify JUndefined = None"
| "JSON_stringify JNull = Some ''null''"
| "JSON_stringify (JBool b) = Some (if b then ''true'' else ''false'')"
| "JSON_stringify (JNum n) = Some (show_int n)"
| "JSON_stringify (JStr s) = Some (quote_string s)"
| "JSON_stringify (JArr xs) =
     Some (CHR ''['' #
           join_comma (map (\<lambda>x. case JSON_stringify x of None \<Rightarrow> ''null'' | Some t \<Rightarrow> t) xs)
           @ [CHR '']''])"
| "JSON_stringify (JObj ps) =
     Some (CHR ''{'' #
           join_comma (concat (map (\<lambda>p. case JSON_stringify (snd p) of
                                            None \<Rightarrow> []
                                          | Some t \<Rightarrow> [quote_string (fst p) @ CHR '':'' # t]) ps))
           @ [CHR ''}''])"
| "JSON_stringify (JFun f) = None"


section \<open>The registry\<close>

text \<open>
  \<open>Assert.ok\<close> throws an \<open>AssertionError\<close> carrying its message. An operation returns
  \<open>Inr\<close> of the state it leaves behind, or \<open>Inl\<close> of the error thrown together with
  the state at the moment of the throw.
\<close>

datatype error = AssertionError string

text \<open>
  A resolver is a function object with two mutable properties, \<open>dependencies\<close> and
  \<open>is_resolved\<close>, both \<open>undefined\<close> (\<open>None\<close>) on a function that was never passed
  to \<open>resolve\<close>. The same object is shared by every list it was pushed on, so the
  properties live in a heap indexed by the function's identity.
\<close>

record resolver_props =
  fn_dependencies :: "string list option"
  is_resolved :: "bool option"

text \<open>
  Resolver callbacks are opaque: \<open>resolver.apply(context, arguments)\<close> is recorded in
  a trace, oldest call first. A callback is taken to return normally and not to call back
  into the registry. Debug logging is not part of the model.

  The fields \<open>dependencies\<close> and \<open>dependants\<close> are objects used as dictionaries, here
  partial maps from names; a name that every object inherits as a property (such as
  \<open>toString\<close>) is outside the model. A pending list holds function objects, by identity.
\<close>

record call =
  callee :: nat
  this_arg :: "(string \<times> jsval) list"
  arguments :: "jsval list"

record di_state =
  dependencies :: "string \<Rightarrow> jsval option"
  dependants :: "string \<Rightarrow> nat list option"
  heap :: "nat \<Rightarrow> resolver_props"
  calls :: "call list"

type_synonym outcome = "(error \<times> di_state) + di_state"

text \<open>
  What a caller may pass where the signature asks for \<open>string[]\<close>: an array of strings,
  or something that is not an array.
\<close>

datatype names_arg = NameList "string list" | NotAnArray

text \<open>\<open>new DependencyInjection(options)\<close>: both maps default to the empty object.\<close>

definition DependencyInjection ::
  "(string \<Rightarrow> jsval option) option \<Rightarrow> (string \<Rightarrow> nat list option) option \<Rightarrow>
   (nat \<Rightarrow> resolver_props) \<Rightarrow> di_state" where
  "DependencyInjection opt_dependencies opt_dependants h =
     \<lparr> dependencies = (case opt_dependencies of None \<Rightarrow> Map.empty | Some d \<Rightarrow> d),
       dependants = (case opt_dependants of None \<Rightarrow> Map.empty | Some d \<Rightarrow> d),
       heap = h,
       calls = [] \<rparr>"

definition fresh_heap :: "nat \<Rightarrow> resolver_props" where
  "fresh_heap = (\<lambda>_. \<lparr> fn_dependencies = None, is_resolved = None \<rparr>)"

definition new_injector :: di_state where
  "new_injector = DependencyInjection None None fresh_heap"

subsection \<open>Small steps of the source\<close>

text \<open>\<open>this.dependencies[name]\<close>: \<open>undefined\<close> for a name that was never set.\<close>

definition lookup_dependency :: "di_state \<Rightarrow> string \<Rightarrow> jsval" where
  "lookup_dependency st name = (case dependencies st name of None \<Rightarrow> JUndefined | Some v \<Rightarrow> v)"

text \<open>\<open>this.dependants[name] || []\<close>.\<close>

definition pending :: "di_state \<Rightarrow> string \<Rightarrow> nat list" where
  "pending st name = (case dependants st name of None \<Rightarrow> [] | Some rs \<Rightarrow> rs)"

text \<open>\<open>v != null\<close> (loose inequality: false for \<open>null\<close> and for \<open>undefined\<close>).\<close>

definition not_nullish :: "jsval \<Rightarrow> bool" where
  "not_nullish v = (v \<noteq> JNull \<and> v \<noteq> JUndefined)"

text \<open>\<open>obj[k] = v\<close> on an object kept as an association list.\<close>

fun obj_set :: "string \<Rightarrow> jsval \<Rightarrow> (string \<times> jsval) list \<Rightarrow> (string \<times> jsval) list" where
  "obj_set k v [] = [(k, v)]"
| "obj_set k v (p # ps) = (if fst p = k then (k, v) # ps else p # obj_set k v ps)"

definition set_is_resolved :: "nat \<Rightarrow> bool \<Rightarrow> di_state \<Rightarrow> di_state" where
  "set_is_resolved r b st = st\<lparr> heap := (heap st)(r := (heap st r)\<lparr> is_resolved := Some b \<rparr>) \<rparr>"

definition set_fn_dependencies :: "nat \<Rightarrow> string list \<Rightarrow> di_state \<Rightarrow> di_state" where
  "set_fn_dependencies r ds st =
     st\<lparr> heap := (heap st)(r := (heap st r)\<lparr> fn_dependencies := Some ds \<rparr>) \<rparr>"

text \<open>\<open>resolver.apply(resolver_context, resolver_dependencies)\<close>.\<close>

definition apply_resolver ::
  "nat \<Rightarrow> (string \<times> jsval) list \<Rightarrow> jsval list \<Rightarrow> di_state \<Rightarrow> di_state" where
  "apply_resolver r ctx args st =
     st\<lparr> calls := calls st @ [\<lparr> callee = r, this_arg = ctx, arguments = args \<rparr>] \<rparr>"

text \<open>\<open>_.without(resolvers, ...resolved)\<close>: every occurrence of every listed value goes.\<close>

definition without :: "nat list \<Rightarrow> nat list \<Rightarrow> nat list" where
  "without resolvers resolved = filter (\<lambda>r. r \<notin> set resolved) resolvers"

subsection \<open>inject\<close>

text \<open>The innermost loop of \<open>inject\<close>, over the names a resolver requires.\<close>

definition collect_step ::
  "di_state \<Rightarrow> string \<Rightarrow> (string \<times> jsval) list \<times> jsval list \<Rightarrow>
   (string \<times> jsval) list \<times> jsval list" where
  "collect_step st resolver_dependency_name acc =
     (let resolver_dependency = lookup_dependency st resolver_dependency_name in
      if not_nullish resolver_dependency
      then (obj_set resolver_dependency_name resolver_dependency (fst acc),
            snd acc @ [resolver_dependency])
      else acc)"

definition collect :: "di_state \<Rightarrow> string list \<Rightarrow> (string \<times> jsval) list \<times> jsval list" where
  "collect st names = fold (collect_step st) names ([], [])"

text \<open>The body of the loop over the resolvers pending on one name.\<close>

definition inject_resolver :: "nat \<Rightarrow> nat list \<times> di_state \<Rightarrow> nat list \<times> di_state" where
  "inject_resolver resolver acc =
     (let resolved = fst acc; st = snd acc in
      if is_resolved (heap st resolver) = Some True then (resolved @ [resolver], st)
      else
        let found = collect st (case fn_dependencies (heap st resolver) of
                                   None \<Rightarrow> [] | Some ds \<Rightarrow> ds)
        in (case fn_dependencies (heap st resolver) of
              None \<Rightarrow> (resolved, st)
            | Some ds \<Rightarrow>
                if length (snd found) = length ds
                then (resolved @ [resolver],
                      apply_resolver resolver (fst found) (snd found)
                        (set_is_resolved resolver True st))
                else (resolved, st)))"

text \<open>The body of the loop over the names passed to \<open>inject\<close>.\<close>

definition inject_dependency :: "string \<Rightarrow> di_state \<Rightarrow> di_state" where
  "inject_dependency dependency st =
     (let resolvers = pending st dependency;
          looped = fold inject_resolver resolvers ([], st)
      in (snd looped)\<lparr> dependants :=
            (dependants (snd looped))(dependency \<mapsto> without resolvers (fst looped)) \<rparr>)"

definition msg_list :: string where
  "msg_list = ''Dependencies have to be a non-empty list of dependencies''"

text \<open>\<open>dependencies instanceof Array && dependencies.length > 0\<close>.\<close>

definition nonempty_array :: "names_arg \<Rightarrow> bool" where
  "nonempty_array deps = (case deps of NameList ds \<Rightarrow> ds \<noteq> [] | NotAnArray \<Rightarrow> False)"

definition array_items :: "names_arg \<Rightarrow> string list" where
  "array_items deps = (case deps of NameList ds \<Rightarrow> ds | NotAnArray \<Rightarrow> [])"

definition inject :: "names_arg \<Rightarrow> di_state \<Rightarrow> outcome" where
  "inject deps st =
     (if \<not> nonempty_array deps then Inl (AssertionError msg_list, st)
      else Inr (fold inject_dependency (array_items deps) st))"

subsection \<open>register\<close>

definition msg_key :: string where
  "msg_key = ''Dependency name/key has to be passed as a non-empty string''"

definition msg_value :: string where
  "msg_value = ''Dependency (value) is required''"

text \<open>\<open>typeof dependency_key === 'string' && dependency_key.length > 0\<close>.\<close>

definition nonempty_string :: "jsval \<Rightarrow> bool" where
  "nonempty_string k = (case k of JStr s \<Rightarrow> s \<noteq> [] | _ \<Rightarrow> False)"

definition key_string :: "jsval \<Rightarrow> string" where
  "key_string k = (case k of JStr s \<Rightarrow> s | _ \<Rightarrow> [])"

text \<open>The body of the loop that resets the resolvers pending on the registered name.\<close>

definition reset_resolver :: "jsval \<Rightarrow> jsval \<Rightarrow> nat \<Rightarrow> di_state \<Rightarrow> di_state" where
  "reset_resolver dependency_value old_dependency_value resolver st =
     (if JSON_stringify dependency_value \<noteq> JSON_stringify old_dependency_value
      then set_is_resolved resolver False st
      else st)"

definition register :: "jsval \<Rightarrow> jsval \<Rightarrow> di_state \<Rightarrow> outcome" where
  "register dependency_key dependency_value st =
     (if \<not> nonempty_string dependency_key then Inl (AssertionError msg_key, st)
      else if dependency_value = JUndefined then Inl (AssertionError msg_value, st)
      else
        let k = key_string dependency_key;
            old_dependency_value = lookup_dependency st k;
            resolvers = pending st k;
            st1 = fold (reset_resolver dependency_value old_dependency_value) resolvers st;
            st2 = st1\<lparr> dependencies := (dependencies st1)(k \<mapsto> dependency_value) \<rparr>
        in inject (NameList [k]) st2)"

subsection \<open>resolve\<close>

definition msg_resolver :: string where
  "msg_resolver = ''Resolver has to be a function''"

text \<open>The body of the loop that attaches the resolver to each of its names.\<close>

definition attach :: "string list \<Rightarrow> nat \<Rightarrow> string \<Rightarrow> di_state \<Rightarrow> di_state" where
  "attach ds resolver dependency st =
     (let st1 = st\<lparr> dependants := (dependants st)(dependency \<mapsto> pending st dependency) \<rparr>;
          st2 = set_fn_dependencies resolver ds st1
      in st2\<lparr> dependants :=
            (dependants st2)(dependency \<mapsto> pending st2 dependency @ [resolver]) \<rparr>)"

text \<open>\<open>resolver instanceof Function\<close>.\<close>

definition is_function :: "jsval \<Rightarrow> bool" where
  "is_function f = (case f of JFun r \<Rightarrow> True | _ \<Rightarrow> False)"

definition function_id :: "jsval \<Rightarrow> nat" where
  "function_id f = (case f of JFun r \<Rightarrow> r | _ \<Rightarrow> 0)"

definition resolve :: "names_arg \<Rightarrow> jsval \<Rightarrow> di_state \<Rightarrow> outcome" where
  "resolve deps resolver st =
     (if \<not> nonempty_array deps then Inl (AssertionError msg_list, st)
      else if \<not> is_function resolver then Inl (AssertionError msg_resolver, st)
      else
        let ds = array_items deps;
            r = function_id resolver
        in inject deps (fold (attach ds r) ds st))"

subsection \<open>Straight-line client code\<close>

text \<open>
  A client is a sequence of calls on one injector, as in the tests; an uncaught error
  ends it.
\<close>

datatype op = Register jsval jsval | Resolve names_arg jsval | Inject names_arg

fun step :: "op \<Rightarrow> di_state \<Rightarrow> outcome" where
  "step (Register k v) st = register k v st"
| "step (Resolve ds r) st = resolve ds r st"
| "step (Inject ds) st = inject ds st"

fun run :: "op list \<Rightarrow> di_state \<Rightarrow> outcome" where
  "run [] st = Inr st"
| "run (x # xs) st = (case step x st of Inl e \<Rightarrow> Inl e | Inr st' \<Rightarrow> run xs st')"

text \<open>The calls a trace holds for one resolver; the state and the trace an outcome ends with.\<close>

definition calls_to :: "nat \<Rightarrow> call list \<Rightarrow> call list" where
  "calls_to r cs = filter (\<lambda>c. callee c = r) cs"

definition final :: "outcome \<Rightarrow> di_state" where
  "final out = (case out of Inl e \<Rightarrow> snd e | Inr st \<Rightarrow> st)"

definition trace :: "outcome \<Rightarrow> call list" where
  "trace out = calls (final out)"

text \<open>A client that only registers: one \<open>register(k, v)\<close> for each pair, in order.\<close>

definition registrations :: "(string \<times> jsval) list \<Rightarrow> op list" where
  "registrations regs = map (\<lambda>kv. Register (JStr (fst kv)) (snd kv)) regs"

definition flagged :: "di_state \<Rightarrow> nat \<Rightarrow> bool" where
  "flagged st r = (is_resolved (heap st r) = Some True)"


subsection \<open>Notions used to state what a dispatch does\<close>

text \<open>
  A resolver is ready when its \<open>dependencies\<close> property is set and every name in it has
  a value that is neither \<open>null\<close> nor \<open>undefined\<close>; \<open>the_call\<close> is the call it then
  receives, and \<open>fire\<close> the effect of the branch of \<open>inject\<close> that invokes it.
\<close>

definition required :: "di_state \<Rightarrow> nat \<Rightarrow> string list" where
  "required st r = (case fn_dependencies (heap st r) of None \<Rightarrow> [] | Some ds \<Rightarrow> ds)"

definition ready :: "di_state \<Rightarrow> nat \<Rightarrow> bool" where
  "ready st r =
     (case fn_dependencies (heap st r) of
        None \<Rightarrow> False
      | Some ds \<Rightarrow> length (snd (collect st ds)) = length ds)"

definition the_call :: "di_state \<Rightarrow> nat \<Rightarrow> call" where
  "the_call st r =
     \<lparr> callee = r, this_arg = fst (collect st (required st r)),
       arguments = snd (collect st (required st r)) \<rparr>"

definition fire :: "nat \<Rightarrow> di_state \<Rightarrow> di_state" where
  "fire r st =
     apply_resolver r (fst (collect st (required st r))) (snd (collect st (required st r)))
       (set_is_resolved r True st)"

text \<open>
  Two states used as examples: a new injector after \<open>resolve(["x"], g)\<close> with \<open>g\<close> the
  function 0, and the same after \<open>register("x", "v1")\<close>.
\<close>

definition waiting_x :: di_state where
  "waiting_x = final (resolve (NameList [''x'']) (JFun 0) new_injector)"

definition satisfied_x :: di_state where
  "satisfied_x = final (register (JStr ''x'') (JStr ''v1'') waiting_x)"

text \<open>
  Three more: a new injector after \<open>register("a", 1)\<close> and \<open>register("b", 2)\<close>; a
  new injector after \<open>resolve(["a", "b"], f)\<close>, with \<open>f\<close> the function 0; and the
  same after \<open>resolve(["a", "b"], f)\<close> and \<open>register("a", 1)\<close>.
\<close>

definition registered_ab :: di_state where
  "registered_ab =
     final (run [Register (JStr ''a'') (JNum 1), Register (JStr ''b'') (JNum 2)] new_injector)"

definition attached_ab :: di_state where
  "attached_ab = final (resolve (NameList [''a'', ''b'']) (JFun 0) new_injector)"


text \<open>
  The state \<open>register\<close> hands to \<open>inject\<close>: the resolvers pending on the name have been
  reset where the serialized value changed, and the new value is stored.
\<close>

definition before_dispatch :: "string \<Rightarrow> jsval \<Rightarrow> di_state \<Rightarrow> di_state" where
  "before_dispatch k v st =
     (fold (reset_resolver v (lookup_dependency st k)) (pending st k) st)
       \<lparr> dependencies :=
           (dependencies (fold (reset_resolver v (lookup_dependency st k)) (pending st k) st))
             (k \<mapsto> v) \<rparr>"

definition view :: "di_state \<Rightarrow> (string \<Rightarrow> jsval option) \<times> (nat \<Rightarrow> string list option)" where
  "view st = (dependencies st, \<lambda>g. fn_dependencies (heap st g))"


section \<open>What one dispatch does\<close>

subsection \<open>Collecting the values of a resolver\<close>

lemma length_filter_all: "length (filter P xs) = length xs \<longleftrightarrow> (\<forall>x\<in>set xs. P x)"
proof (induction xs)
  case Nil
  then show ?case by simp
next
  case (Cons x xs)
  have "length (filter P xs) \<le> length xs" by (rule length_filter_le)
  then have "length (filter P xs) \<noteq> Suc (length xs)" by arith
  with Cons show ?case by auto
qed

lemma collect_step_args:
  "snd (fold (collect_step st) ns acc) = snd acc @ filter not_nullish (map (lookup_dependency st) ns)"
  by (induction ns arbitrary: acc) (simp_all add: collect_step_def Let_def)

lemma collect_args: "snd (collect st ns) = filter not_nullish (map (lookup_dependency st) ns)"
  by (simp add: collect_def collect_step_args)

lemma map_of_obj_set: "map_of (obj_set k v ps) = (map_of ps)(k \<mapsto> v)"
  by (induction ps) (auto simp: fun_eq_iff)

lemma collect_step_ctx:
  "map_of (fst (fold (collect_step st) ns acc)) n =
     (if n \<in> set ns \<and> not_nullish (lookup_dependency st n)
      then Some (lookup_dependency st n) else map_of (fst acc) n)"
  by (induction ns arbitrary: acc) (auto simp: collect_step_def Let_def map_of_obj_set)

lemma collect_ctx:
  "map_of (fst (collect st ns)) n =
     (if n \<in> set ns \<and> not_nullish (lookup_dependency st n)
      then Some (lookup_dependency st n) else None)"
  by (simp add: collect_def collect_step_ctx)

lemma ready_iff:
  "ready st r \<longleftrightarrow>
     (\<exists>ds. fn_dependencies (heap st r) = Some ds \<and>
           (\<forall>n\<in>set ds. not_nullish (lookup_dependency st n)))"
  by (auto simp: ready_def collect_args length_filter_all split: option.splits)

lemma lookup_same: "dependencies st' = dependencies st \<Longrightarrow> lookup_dependency st' = lookup_dependency st"
  by (simp add: lookup_dependency_def fun_eq_iff)

lemma collect_step_same:
  assumes "dependencies st' = dependencies st"
  shows "collect_step st' = collect_step st"
proof -
  have "lookup_dependency st' = lookup_dependency st" by (rule lookup_same [OF assms])
  then show ?thesis by (simp add: collect_step_def fun_eq_iff)
qed

lemma collect_same:
  assumes "dependencies st' = dependencies st"
  shows "collect st' = collect st"
proof -
  have h: "collect_step st' = collect_step st" by (rule collect_step_same [OF assms])
  show ?thesis by (rule ext) (simp add: collect_def h)
qed

lemma view_deps:
  assumes "view st' = view st"
  shows "dependencies st' = dependencies st"
proof -
  have "fst (view st') = fst (view st)" by (simp only: assms)
  then show ?thesis by (simp only: view_def fst_conv)
qed

lemma view_fn:
  assumes "view st' = view st"
  shows "fn_dependencies (heap st' g) = fn_dependencies (heap st g)"
proof -
  have "snd (view st') = snd (view st)" by (simp only: assms)
  then have "(\<lambda>g. fn_dependencies (heap st' g)) = (\<lambda>g. fn_dependencies (heap st g))"
    by (simp only: view_def snd_conv)
  then show ?thesis by (rule fun_cong)
qed

lemma view_collect:
  assumes "view st' = view st"
  shows "collect st' = collect st"
  by (rule collect_same) (rule view_deps [OF assms])

lemma view_required:
  assumes "view st' = view st"
  shows "required st' = required st"
  by (rule ext) (simp only: required_def view_fn [OF assms])

lemma view_ready:
  assumes "view st' = view st"
  shows "ready st' = ready st"
  by (rule ext) (simp only: ready_def view_fn [OF assms] view_collect [OF assms])

lemma view_the_call:
  assumes "view st' = view st"
  shows "the_call st' = the_call st"
  by (rule ext) (simp only: the_call_def view_required [OF assms] view_collect [OF assms])

lemma inject_resolver_eq:
  "inject_resolver r (res, st) =
     (if flagged st r then (res @ [r], st)
      else if ready st r then (res @ [r], fire r st)
      else (res, st))"
  by (simp add: inject_resolver_def flagged_def ready_def fire_def required_def Let_def
      split: option.splits)

lemma fire_view: "view (fire r st) = view st"
  by (simp add: view_def fire_def apply_resolver_def set_is_resolved_def fun_eq_iff)

lemma fire_dependants: "dependants (fire r st) = dependants st"
  by (simp add: fire_def apply_resolver_def set_is_resolved_def)

lemma fire_flagged: "flagged (fire r st) g \<longleftrightarrow> g = r \<or> flagged st g"
  by (simp add: flagged_def fire_def apply_resolver_def set_is_resolved_def)

lemma fire_calls: "calls (fire r st) = calls st @ [the_call st r]"
  by (simp add: fire_def the_call_def apply_resolver_def set_is_resolved_def)


lemma calls_to_append: "calls_to g (xs @ ys) = calls_to g xs @ calls_to g ys"
  by (simp add: calls_to_def)

lemma calls_to_single: "calls_to g [c] = (if callee c = g then [c] else [])"
  by (simp add: calls_to_def)

lemma calls_to_Nil: "calls_to g [] = []"
  by (simp add: calls_to_def)

lemma callee_the_call: "callee (the_call st r) = r"
  by (simp add: the_call_def)

lemma loop_view:
  "view (snd (fold inject_resolver rs (res, st))) = view st \<and>
   dependants (snd (fold inject_resolver rs (res, st))) = dependants st"
proof (induction rs arbitrary: res st)
  case Nil
  show ?case by simp
next
  case (Cons r rs)
  show ?case
    by (simp add: inject_resolver_eq Cons.IH fire_dependants fire_view)
qed

lemma loop_flagged:
  "flagged (snd (fold inject_resolver rs (res, st))) g \<longleftrightarrow>
     flagged st g \<or> (g \<in> set rs \<and> ready st g)"
proof (induction rs arbitrary: res st)
  case Nil
  show ?case by simp
next
  case (Cons r rs)
  show ?case
    by (auto simp: inject_resolver_eq Cons.IH fire_flagged view_ready [OF fire_view])
qed

lemma loop_calls:
  "calls_to g (calls (snd (fold inject_resolver rs (res, st)))) =
     calls_to g (calls st) @
       (if g \<in> set rs \<and> \<not> flagged st g \<and> ready st g then [the_call st g] else [])"
proof (induction rs arbitrary: res st)
  case Nil
  show ?case by simp
next
  case (Cons r rs)
  show ?case
    by (auto simp: inject_resolver_eq Cons.IH fire_flagged fire_calls calls_to_append
        calls_to_single callee_the_call view_ready [OF fire_view] view_the_call [OF fire_view])
qed

lemma loop_resolved:
  "set (fst (fold inject_resolver rs (res, st))) =
     set res \<union> {g \<in> set rs. flagged st g \<or> ready st g}"
proof (induction rs arbitrary: res st)
  case Nil
  show ?case by simp
next
  case (Cons r rs)
  show ?case
    by (auto simp: inject_resolver_eq Cons.IH fire_flagged view_ready [OF fire_view])
qed

subsection \<open>Dispatch on one name, and on a list of names\<close>

lemma view_dependants_update: "view (st\<lparr>dependants := x\<rparr>) = view st"
  by (simp add: view_def)

lemma flagged_dependants_update: "flagged (st\<lparr>dependants := x\<rparr>) = flagged st"
  by (rule ext) (simp add: flagged_def)

lemma pending_dependants_update:
  "pending (st\<lparr>dependants := (dependants st)(d \<mapsto> xs)\<rparr>) n = (if n = d then xs else pending st n)"
  by (simp add: pending_def)

lemma without_loop:
  "without rs (fst (fold inject_resolver rs ([], st))) =
     filter (\<lambda>r. \<not> (flagged st r \<or> ready st r)) rs"
  unfolding without_def loop_resolved
  by (rule filter_cong) auto

lemma inj_dep_view: "view (inject_dependency d st) = view st"
  by (simp add: inject_dependency_def Let_def view_dependants_update loop_view)

lemma inj_dep_flagged:
  "flagged (inject_dependency d st) g \<longleftrightarrow>
     flagged st g \<or> (g \<in> set (pending st d) \<and> ready st g)"
  by (simp add: inject_dependency_def Let_def flagged_dependants_update loop_flagged)

lemma inj_dep_calls:
  "calls_to g (calls (inject_dependency d st)) =
     calls_to g (calls st) @
       (if g \<in> set (pending st d) \<and> \<not> flagged st g \<and> ready st g then [the_call st g] else [])"
  by (simp add: inject_dependency_def Let_def loop_calls)

lemma inj_dep_dependants:
  "dependants (inject_dependency d st) =
     (dependants st)(d \<mapsto> filter (\<lambda>r. \<not> (flagged st r \<or> ready st r)) (pending st d))"
  by (simp add: inject_dependency_def Let_def loop_view without_loop)

lemma inj_dep_pending:
  "pending (inject_dependency d st) n =
     (if n = d then filter (\<lambda>r. \<not> (flagged st r \<or> ready st r)) (pending st d)
      else pending st n)"
  by (simp add: pending_def inj_dep_dependants)

lemma inj_dep_settled:
  "(flagged (inject_dependency d st) r \<or> ready st r) = (flagged st r \<or> ready st r)"
  by (auto simp: inj_dep_flagged)

lemma inj_view: "view (fold inject_dependency ds st) = view st"
  by (induction ds arbitrary: st) (simp_all add: inj_dep_view)

lemma inj_dep_member:
  "g \<in> set (pending (inject_dependency d st) n) \<longleftrightarrow>
     g \<in> set (pending st n) \<and> (n = d \<longrightarrow> \<not> (flagged st g \<or> ready st g))"
  by (simp add: inj_dep_pending)

lemma inj_flagged:
  "flagged (fold inject_dependency ds st) g \<longleftrightarrow>
     flagged st g \<or> ((\<exists>n\<in>set ds. g \<in> set (pending st n)) \<and> ready st g)"
proof (induction ds arbitrary: st)
  case Nil
  show ?case by simp
next
  case (Cons d ds)
  have "flagged (fold inject_dependency (d # ds) st) g \<longleftrightarrow>
          flagged st g \<or> (g \<in> set (pending st d) \<and> ready st g) \<or>
          ((\<exists>n\<in>set ds. g \<in> set (pending st n) \<and>
                 (n = d \<longrightarrow> \<not> (flagged st g \<or> ready st g))) \<and> ready st g)"
    by (simp add: Cons.IH inj_dep_flagged inj_dep_member view_ready [OF inj_dep_view]
        disj_assoc)
  also have "\<dots> \<longleftrightarrow>
          flagged st g \<or> ((\<exists>n\<in>set (d # ds). g \<in> set (pending st n)) \<and> ready st g)"
    by auto
  finally show ?case .
qed

lemma inj_calls:
  "calls_to g (calls (fold inject_dependency ds st)) =
     calls_to g (calls st) @
       (if (\<exists>n\<in>set ds. g \<in> set (pending st n)) \<and> \<not> flagged st g \<and> ready st g
        then [the_call st g] else [])"
proof (induction ds arbitrary: st)
  case Nil
  show ?case by simp
next
  case (Cons d ds)
  let ?s1 = "inject_dependency d st"
  have step: "calls_to g (calls (fold inject_dependency ds ?s1)) =
          calls_to g (calls ?s1) @
            (if (\<exists>n\<in>set ds. g \<in> set (pending ?s1 n)) \<and> \<not> flagged ?s1 g \<and> ready st g
             then [the_call st g] else [])"
    by (simp add: Cons.IH view_ready [OF inj_dep_view] view_the_call [OF inj_dep_view])
  show ?case
  proof (cases "\<not> flagged st g \<and> ready st g")
    case False
    then have "\<not> (\<not> flagged ?s1 g \<and> ready st g)" by (auto simp: inj_dep_flagged)
    with False show ?thesis by (simp add: step inj_dep_calls)
  next
    case True
    show ?thesis
    proof (cases "g \<in> set (pending st d)")
      case True
      with \<open>\<not> flagged st g \<and> ready st g\<close> have "flagged ?s1 g" by (simp add: inj_dep_flagged)
      with True \<open>\<not> flagged st g \<and> ready st g\<close> show ?thesis
        by (simp add: step inj_dep_calls)
    next
      case False
      with \<open>\<not> flagged st g \<and> ready st g\<close> have nf: "\<not> flagged ?s1 g"
        by (simp add: inj_dep_flagged)
      from False have "(\<exists>n\<in>set ds. g \<in> set (pending ?s1 n)) \<longleftrightarrow>
                       (\<exists>n\<in>set (d # ds). g \<in> set (pending st n))"
        by (auto simp: inj_dep_member)
      with False nf \<open>\<not> flagged st g \<and> ready st g\<close> show ?thesis
        by (simp add: step inj_dep_calls)
    qed
  qed
qed

lemma inj_pending:
  "pending (fold inject_dependency ds st) n =
     (if n \<in> set ds then filter (\<lambda>r. \<not> (flagged st r \<or> ready st r)) (pending st n)
      else pending st n)"
proof (induction ds arbitrary: st)
  case Nil
  show ?case by simp
next
  case (Cons d ds)
  show ?case
    by (simp add: Cons.IH inj_dep_pending inj_dep_settled view_ready [OF inj_dep_view])
qed

lemma inj_dependants_other:
  "n \<notin> set ds \<Longrightarrow> dependants (fold inject_dependency ds st) n = dependants st n"
  by (induction ds arbitrary: st) (simp_all add: inj_dep_dependants)

subsection \<open>The loops of register and resolve\<close>

lemma reset_step_view: "view (reset_resolver v old r st) = view st"
  by (simp add: reset_resolver_def set_is_resolved_def view_def fun_eq_iff)

lemma reset_view: "view (fold (reset_resolver v old) rs st) = view st"
  by (induction rs arbitrary: st) (simp_all add: reset_step_view)

lemma reset_dependants: "dependants (fold (reset_resolver v old) rs st) = dependants st"
  by (induction rs arbitrary: st) (simp_all add: reset_resolver_def set_is_resolved_def)

lemma reset_calls: "calls (fold (reset_resolver v old) rs st) = calls st"
  by (induction rs arbitrary: st) (simp_all add: reset_resolver_def set_is_resolved_def)

lemma reset_flagged:
  "flagged (fold (reset_resolver v old) rs st) g \<longleftrightarrow>
     flagged st g \<and> \<not> (g \<in> set rs \<and> JSON_stringify v \<noteq> JSON_stringify old)"
  by (induction rs arbitrary: st)
     (auto simp: reset_resolver_def set_is_resolved_def flagged_def)

lemma inject_ok: "ds \<noteq> [] \<Longrightarrow> inject (NameList ds) st = Inr (fold inject_dependency ds st)"
  by (simp add: inject_def nonempty_array_def array_items_def)

lemma register_ok:
  assumes "k \<noteq> []" and "v \<noteq> JUndefined"
  shows "register (JStr k) v st = Inr (inject_dependency k (before_dispatch k v st))"
  using assms
  by (simp add: register_def nonempty_string_def key_string_def inject_def Let_def
      nonempty_array_def array_items_def before_dispatch_def)

lemma flagged_dependencies_update: "flagged (st\<lparr>dependencies := x\<rparr>) = flagged st"
  by (rule ext) (simp add: flagged_def)

lemma reset_fn:
  "fn_dependencies (heap (fold (reset_resolver v old) rs st) g) = fn_dependencies (heap st g)"
  by (rule view_fn) (rule reset_view)

lemma reset_dependencies: "dependencies (fold (reset_resolver v old) rs st) = dependencies st"
  by (rule view_deps) (rule reset_view)

lemma mid_dependencies: "dependencies (before_dispatch k v s) = (dependencies s)(k \<mapsto> v)"
  by (simp add: before_dispatch_def reset_dependencies)

lemma mid_fn: "fn_dependencies (heap (before_dispatch k v s) g) = fn_dependencies (heap s g)"
  by (simp add: before_dispatch_def reset_fn)

lemma mid_calls: "calls (before_dispatch k v s) = calls s"
  by (simp add: before_dispatch_def reset_calls)

lemma mid_pending: "pending (before_dispatch k v s) = pending s"
  by (rule ext) (simp add: before_dispatch_def pending_def reset_dependants)

lemma mid_flagged:
  "flagged (before_dispatch k v s) g \<longleftrightarrow>
     flagged s g \<and>
     \<not> (g \<in> set (pending s k) \<and> JSON_stringify v \<noteq> JSON_stringify (lookup_dependency s k))"
  by (simp add: before_dispatch_def flagged_dependencies_update reset_flagged)

lemma mid_lookup:
  "lookup_dependency (before_dispatch k v s) n = (if n = k then v else lookup_dependency s n)"
  by (simp add: lookup_dependency_def mid_dependencies)

lemma attach_dependencies: "dependencies (fold (attach ds r) ns st) = dependencies st"
  by (induction ns arbitrary: st) (simp_all add: attach_def set_fn_dependencies_def Let_def)

lemma attach_calls: "calls (fold (attach ds r) ns st) = calls st"
  by (induction ns arbitrary: st) (simp_all add: attach_def set_fn_dependencies_def Let_def)

lemma attach_flagged: "flagged (fold (attach ds r) ns st) g = flagged st g"
  by (induction ns arbitrary: st)
     (simp_all add: attach_def set_fn_dependencies_def Let_def flagged_def)

lemma attach_fn:
  "fn_dependencies (heap (fold (attach ds r) ns st) g) =
     (if g = r \<and> ns \<noteq> [] then Some ds else fn_dependencies (heap st g))"
  by (induction ns arbitrary: st) (simp_all add: attach_def set_fn_dependencies_def Let_def)

lemma attach_pending_set:
  "set (pending (fold (attach ds r) ns st) n) =
     set (pending st n) \<union> (if n \<in> set ns then {r} else {})"
  by (induction ns arbitrary: st)
     (auto simp: attach_def set_fn_dependencies_def Let_def pending_def)

lemma resolve_ok:
  "ds \<noteq> [] \<Longrightarrow>
   resolve (NameList ds) (JFun r) st = Inr (fold inject_dependency ds (fold (attach ds r) ds st))"
  by (simp add: resolve_def inject_def nonempty_array_def array_items_def is_function_def
      function_id_def)


section \<open>Argument checks\<close>

lemma register_fails_iff:
  "(\<exists>e s'. register k v s = Inl (e, s')) \<longleftrightarrow> \<not> nonempty_string k \<or> v = JUndefined"
  by (simp add: register_def inject_def nonempty_array_def Let_def)

lemma register_failure_state:
  "register k v s = Inl (e, s') \<Longrightarrow>
     s' = s \<and> (e = AssertionError msg_key \<or> e = AssertionError msg_value)"
  by (auto simp: register_def inject_def nonempty_array_def Let_def split: if_splits)

text \<open>
  Claim C8. \<open>register(name, value)\<close> throws the assertion error exactly when \<open>name\<close> is
  not a non-empty string or \<open>value\<close> is \<open>undefined\<close>; the state at the throw is the
  state before the call; \<open>null\<close> is accepted as a value.
\<close>

theorem C8_register_invalid_argument:
  "((\<exists>e s'. register k v s = Inl (e, s')) \<longleftrightarrow> \<not> nonempty_string k \<or> v = JUndefined) \<and>
   (\<forall>e s'. register k v s = Inl (e, s') \<longrightarrow>
      s' = s \<and> (e = AssertionError msg_key \<or> e = AssertionError msg_value)) \<and>
   (nonempty_string k \<longrightarrow> (\<exists>s'. register k JNull s = Inr s'))"
proof -
  have null_ok: "nonempty_string k \<longrightarrow> (\<exists>s'. register k JNull s = Inr s')"
    by (simp add: register_def inject_def nonempty_array_def Let_def)
  show ?thesis
    using register_fails_iff [of k v s] register_failure_state [of k v s] null_ok
    by blast
qed

theorem C8_witness:
  "register (JStr []) (JStr ''value'') new_injector = Inl (AssertionError msg_key, new_injector) \<and>
   register (JStr ''k'') JUndefined new_injector = Inl (AssertionError msg_value, new_injector) \<and>
   nonempty_string (JStr ''k'') \<and>
   (\<exists>s'. register (JStr ''k'') JNull new_injector = Inr s')"
proof -
  have a: "\<exists>e s'. register (JStr []) (JStr ''value'') new_injector = Inl (e, s')"
    using C8_register_invalid_argument [of "JStr []" "JStr ''value''" new_injector]
    by (simp add: nonempty_string_def)
  have b: "\<exists>e s'. register (JStr ''k'') JUndefined new_injector = Inl (e, s')"
    using C8_register_invalid_argument [of "JStr ''k''" JUndefined new_injector]
    by simp
  have c: "nonempty_string (JStr ''k'')" by (simp add: nonempty_string_def)
  have d: "\<exists>s'. register (JStr ''k'') JNull new_injector = Inr s'"
    using C8_register_invalid_argument [of "JStr ''k''" JNull new_injector] c by simp
  from a b c d show ?thesis
    by (simp add: register_def nonempty_string_def)
qed

lemma resolve_fails_iff:
  "(\<exists>e s'. resolve d r s = Inl (e, s')) \<longleftrightarrow> \<not> nonempty_array d \<or> \<not> is_function r"
  by (simp add: resolve_def inject_def Let_def)

lemma resolve_failure_state:
  "resolve d r s = Inl (e, s') \<Longrightarrow>
     s' = s \<and> (e = AssertionError msg_list \<or> e = AssertionError msg_resolver)"
  by (auto simp: resolve_def inject_def Let_def split: if_splits)

text \<open>
  Claim C9. \<open>resolve(names, resolver)\<close> throws the assertion error exactly when \<open>names\<close>
  is not a non-empty array or \<open>resolver\<close> is not a function; the state at the throw is the
  state before the call. In particular \<open>resolve([], f)\<close> and
  \<open>resolve(["a"], "not-callable")\<close> throw.
\<close>

theorem C9_resolve_invalid_argument:
  "((\<exists>e s'. resolve d r s = Inl (e, s')) \<longleftrightarrow> \<not> nonempty_array d \<or> \<not> is_function r) \<and>
   (\<forall>e s'. resolve d r s = Inl (e, s') \<longrightarrow>
      s' = s \<and> (e = AssertionError msg_list \<or> e = AssertionError msg_resolver)) \<and>
   resolve (NameList []) (JFun f) s = Inl (AssertionError msg_list, s) \<and>
   resolve (NameList [''a'']) (JStr ''not-callable'') s = Inl (AssertionError msg_resolver, s)"
proof -
  have empty: "resolve (NameList []) (JFun f) s = Inl (AssertionError msg_list, s)"
    by (simp add: resolve_def nonempty_array_def)
  have not_callable:
    "resolve (NameList [''a'']) (JStr ''not-callable'') s = Inl (AssertionError msg_resolver, s)"
    by (simp add: resolve_def nonempty_array_def is_function_def)
  show ?thesis
    using resolve_fails_iff [of d r s] resolve_failure_state [of d r s] empty not_callable
    by blast
qed

theorem C9_witness:
  "resolve NotAnArray (JFun 0) new_injector = Inl (AssertionError msg_list, new_injector) \<and>
   nonempty_array (NameList [''a'']) \<and> is_function (JFun 0) \<and>
   \<not> (\<exists>e s'. resolve (NameList [''a'']) (JFun 0) new_injector = Inl (e, s'))"
proof -
  have a: "\<exists>e s'. resolve NotAnArray (JFun 0) new_injector = Inl (e, s')"
    using C9_resolve_invalid_argument [of NotAnArray "JFun 0" new_injector]
    by (simp add: nonempty_array_def)
  have b: "nonempty_array (NameList [''a''])" "is_function (JFun 0)"
    by (simp_all add: nonempty_array_def is_function_def)
  have c: "\<not> (\<exists>e s'. resolve (NameList [''a'']) (JFun 0) new_injector = Inl (e, s'))"
    using C9_resolve_invalid_argument [of "NameList [''a'']" "JFun 0" new_injector] b by simp
  from a b c show ?thesis
    by (simp add: resolve_def nonempty_array_def)
qed


section \<open>Frame of register and inject\<close>

lemma register_InrD:
  "register k v s = Inr s' \<Longrightarrow> nonempty_string k \<and> v \<noteq> JUndefined"
  using register_fails_iff [of k v s] by auto

lemma nonempty_string_JStr: "nonempty_string (JStr k) \<longleftrightarrow> k \<noteq> []"
  by (simp add: nonempty_string_def)

lemma register_Inr_eq:
  assumes "register (JStr k) v s = Inr s'"
  shows "k \<noteq> []" and "v \<noteq> JUndefined" and "s' = inject_dependency k (before_dispatch k v s)"
proof -
  from register_InrD [OF assms] show k: "k \<noteq> []" and v: "v \<noteq> JUndefined"
    by (simp_all add: nonempty_string_JStr)
  have "register (JStr k) v s = Inr (inject_dependency k (before_dispatch k v s))"
    by (rule register_ok [OF k v])
  then have "Inr s' = (Inr (inject_dependency k (before_dispatch k v s)) :: outcome)"
    by (simp only: assms)
  then show "s' = inject_dependency k (before_dispatch k v s)" by (rule Inr_inject)
qed

lemma inject_InrD:
  "inject names s = Inr s' \<Longrightarrow> s' = fold inject_dependency (array_items names) s"
  by (cases "nonempty_array names") (simp_all add: inject_def)

lemma register_frame:
  assumes "register (JStr k) v s = Inr s'"
  shows "dependencies s' = (dependencies s)(k \<mapsto> v)"
  unfolding register_Inr_eq(3) [OF assms]
  by (simp only: view_deps [OF inj_dep_view] mid_dependencies)

lemma inject_frame:
  assumes "inject names s = Inr s'"
  shows "dependencies s' = dependencies s"
    and "n \<notin> set (array_items names) \<Longrightarrow> dependants s' n = dependants s n"
    and "\<exists>P. pending s' n = filter P (pending s n)"
proof -
  have s': "s' = fold inject_dependency (array_items names) s"
    by (rule inject_InrD [OF assms])
  show "dependencies s' = dependencies s"
    unfolding s' by (rule view_deps [OF inj_view])
  show "dependants s' n = dependants s n" if "n \<notin> set (array_items names)"
    unfolding s' by (rule inj_dependants_other [OF that])
  show "\<exists>P. pending s' n = filter P (pending s n)"
  proof (cases "n \<in> set (array_items names)")
    case True
    then have "pending s' n = filter (\<lambda>r. \<not> (flagged s r \<or> ready s r)) (pending s n)"
      unfolding s' by (simp add: inj_pending)
    then show ?thesis by blast
  next
    case False
    then have "pending s' n = filter (\<lambda>r. True) (pending s n)"
      unfolding s' by (simp add: inj_pending)
    then show ?thesis by blast
  qed
qed

text \<open>
  Claim C10. With callbacks that do not call back into the registry, \<open>register(name, v)\<close>
  changes the dependencies map at \<open>name\<close> only, and \<open>inject\<close> leaves the dependencies
  map as it is, leaves the pending list of every name it was not given as it is, and
  turns the pending list of any name into a sublist that keeps the order (a filter of it).
\<close>

theorem C10_frame:
  "(\<forall>s'. register (JStr k) v s = Inr s' \<longrightarrow>
      dependencies s' k = Some v \<and>
      (\<forall>k'. k' \<noteq> k \<longrightarrow> dependencies s' k' = dependencies s k')) \<and>
   (\<forall>s'. inject names s = Inr s' \<longrightarrow>
      dependencies s' = dependencies s \<and>
      (\<forall>n. n \<notin> set (array_items names) \<longrightarrow> dependants s' n = dependants s n) \<and>
      (\<forall>n. \<exists>P. pending s' n = filter P (pending s n)))"
proof -
  have reg: "dependencies s' k = Some v \<and>
        (\<forall>k'. k' \<noteq> k \<longrightarrow> dependencies s' k' = dependencies s k')"
    if "register (JStr k) v s = Inr s'" for s'
  proof -
    have d: "dependencies s' = (dependencies s)(k \<mapsto> v)" by (rule register_frame [OF that])
    show ?thesis unfolding d by simp
  qed
  have inj: "dependencies s' = dependencies s \<and>
      (\<forall>n. n \<notin> set (array_items names) \<longrightarrow> dependants s' n = dependants s n) \<and>
      (\<forall>n. \<exists>P. pending s' n = filter P (pending s n))"
    if a: "inject names s = Inr s'" for s'
    using inject_frame [OF a] by blast
  from reg inj show ?thesis by blast
qed

theorem C10_witness:
  "register (JStr ''a'') (JNum 1) new_injector =
     Inr (inject_dependency ''a'' (before_dispatch ''a'' (JNum 1) new_injector)) \<and>
   dependencies (inject_dependency ''a'' (before_dispatch ''a'' (JNum 1) new_injector)) ''a'' =
     Some (JNum 1) \<and>
   dependencies (inject_dependency ''a'' (before_dispatch ''a'' (JNum 1) new_injector)) ''b'' =
     dependencies new_injector ''b'' \<and>
   inject (NameList [''a'']) new_injector = Inr (fold inject_dependency [''a''] new_injector) \<and>
   dependencies (fold inject_dependency [''a''] new_injector) = dependencies new_injector"
proof -
  have r: "register (JStr ''a'') (JNum 1) new_injector =
             Inr (inject_dependency ''a'' (before_dispatch ''a'' (JNum 1) new_injector))"
    by (rule register_ok) simp_all
  have i: "inject (NameList [''a'']) new_injector = Inr (fold inject_dependency [''a''] new_injector)"
    by (rule inject_ok) simp
  note c = C10_frame [of "''a''" "JNum 1" new_injector "NameList [''a'']"]
  note c1 = c [THEN conjunct1, THEN spec, THEN mp, OF r]
  note c2 = c [THEN conjunct2, THEN spec, THEN mp, OF i]
  have ne: "''b'' \<noteq> ''a''" by simp
  from c1 have a: "dependencies (inject_dependency ''a'' (before_dispatch ''a'' (JNum 1) new_injector)) ''a'' =
     Some (JNum 1)" by (rule conjunct1)
  from c1 [THEN conjunct2, THEN spec, THEN mp, OF ne]
  have b: "dependencies (inject_dependency ''a'' (before_dispatch ''a'' (JNum 1) new_injector)) ''b'' =
     dependencies new_injector ''b''" .
  from c2 have d: "dependencies (fold inject_dependency [''a''] new_injector) = dependencies new_injector"
    by (rule conjunct1)
  show ?thesis
    by (intro conjI) (rule r, rule a, rule b, rule i, rule d)
qed


section \<open>Null values and unchanged values\<close>

lemma Inr_final: "\<not> isl out \<Longrightarrow> out = Inr (final out)"
  by (cases out) (simp_all add: final_def)

lemma null_not_ready:
  assumes "fn_dependencies (heap s r) = Some ds" and "n \<in> set ds"
    and "dependencies s n = Some JNull"
  shows "\<not> ready s r"
proof -
  from assms(3) have "\<not> not_nullish (lookup_dependency s n)"
    by (simp add: lookup_dependency_def not_nullish_def)
  with assms(1,2) show ?thesis by (auto simp: ready_iff)
qed

lemma nonempty_stringD: "nonempty_string k \<Longrightarrow> \<exists>k'. k = JStr k' \<and> k' \<noteq> []"
  by (cases k) (simp_all add: nonempty_string_def)

lemma nonempty_arrayD: "nonempty_array d \<Longrightarrow> \<exists>ds. d = NameList ds \<and> ds \<noteq> []"
  by (cases d) (simp_all add: nonempty_array_def)

lemma is_functionD: "is_function f \<Longrightarrow> \<exists>r. f = JFun r"
  by (cases f) (simp_all add: is_function_def)

lemma resolve_InrD:
  "resolve d f s = Inr s' \<Longrightarrow> nonempty_array d \<and> is_function f"
  using resolve_fails_iff [of d f s] by auto

lemma resolve_Inr_eq:
  assumes "resolve (NameList ds) (JFun r) s = Inr s'"
  shows "ds \<noteq> []" and "s' = fold inject_dependency ds (fold (attach ds r) ds s)"
proof -
  from resolve_InrD [OF assms] show ds: "ds \<noteq> []" by (simp add: nonempty_array_def)
  have "resolve (NameList ds) (JFun r) s = Inr (fold inject_dependency ds (fold (attach ds r) ds s))"
    by (rule resolve_ok [OF ds])
  then have "Inr s' = (Inr (fold inject_dependency ds (fold (attach ds r) ds s)) :: outcome)"
    by (simp only: assms)
  then show "s' = fold inject_dependency ds (fold (attach ds r) ds s)" by (rule Inr_inject)
qed

lemma step_dispatch:
  assumes "step x s = Inr s'"
  shows "\<exists>mid ds. s' = fold inject_dependency ds mid \<and> calls mid = calls s"
proof (cases x)
  case (Register k v)
  with assms have r: "register k v s = Inr s'" by simp
  from register_InrD [OF r] nonempty_stringD obtain k' where k: "k = JStr k'" by blast
  from r have "s' = fold inject_dependency [k'] (before_dispatch k' v s)"
    unfolding k by (simp add: register_Inr_eq(3))
  then show ?thesis using mid_calls by blast
next
  case (Resolve d f)
  with assms have r: "resolve d f s = Inr s'" by simp
  from resolve_InrD [OF r] nonempty_arrayD is_functionD
  obtain ds g where d: "d = NameList ds" and f: "f = JFun g" by blast
  from r have "s' = fold inject_dependency ds (fold (attach ds g) ds s)"
    unfolding d f by (rule resolve_Inr_eq(2))
  then show ?thesis using attach_calls by blast
next
  case (Inject d)
  with assms have "inject d s = Inr s'" by simp
  then have "s' = fold inject_dependency (array_items d) s" by (rule inject_InrD)
  then show ?thesis by blast
qed

lemma step_null_no_call:
  assumes "step x s = Inr s'" and "fn_dependencies (heap s' r) = Some ds" and "n \<in> set ds"
    and "dependencies s' n = Some JNull"
  shows "calls_to r (calls s') = calls_to r (calls s)"
proof -
  from step_dispatch [OF assms(1)] obtain mid ns where
    s': "s' = fold inject_dependency ns mid" and c: "calls mid = calls s" by blast
  have nr: "\<not> ready s' r" by (rule null_not_ready [OF assms(2,3,4)])
  have "ready s' = ready mid" unfolding s' by (rule view_ready [OF inj_view])
  with nr have "\<not> ready mid r" by simp
  then have "calls_to r (calls (fold inject_dependency ns mid)) = calls_to r (calls mid)"
    by (simp add: inj_calls)
  with c s' show ?thesis by simp
qed

lemma null_skipped:
  assumes "n \<in> set ds" and "dependencies s n = Some JNull"
  shows "JNull \<notin> set (snd (collect s ds)) \<and> length (snd (collect s ds)) < length ds"
proof -
  from assms(2) have nn: "\<not> not_nullish (lookup_dependency s n)"
    by (simp add: lookup_dependency_def not_nullish_def)
  have a: "JNull \<notin> set (snd (collect s ds))"
    by (auto simp: collect_args not_nullish_def)
  from assms(1) have "lookup_dependency s n \<in> set (map (lookup_dependency s) ds)" by simp
  with nn have "length (filter not_nullish (map (lookup_dependency s) ds)) <
                length (map (lookup_dependency s) ds)"
    by (rule_tac length_filter_less) auto
  then have b: "length (snd (collect s ds)) < length ds" by (simp add: collect_args)
  from a b show ?thesis by simp
qed

lemma register_null_stored:
  assumes "k \<noteq> []"
  shows "\<exists>s'. register (JStr k) JNull s = Inr s' \<and> dependencies s' k = Some JNull"
proof -
  have r: "register (JStr k) JNull s = Inr (inject_dependency k (before_dispatch k JNull s))"
    by (rule register_ok [OF assms]) simp
  have "dependencies (inject_dependency k (before_dispatch k JNull s)) k = Some JNull"
    by (simp add: view_deps [OF inj_dep_view] mid_dependencies)
  with r show ?thesis by blast
qed

text \<open>
  Claim C3. \<open>register\<close> accepts \<open>null\<close> and stores it. A name whose value is
  \<open>null\<close> is left out of the argument tuple, which is then shorter than the list of required
  names; and no operation invokes a resolver that, in the state the operation leaves,
  requires a name whose value is \<open>null\<close>.
\<close>

theorem C3_null_never_ready:
  "(k \<noteq> [] \<longrightarrow> (\<exists>s'. register (JStr k) JNull s = Inr s' \<and> dependencies s' k = Some JNull)) \<and>
   (\<forall>ds n. n \<in> set ds \<and> dependencies s n = Some JNull \<longrightarrow>
      JNull \<notin> set (snd (collect s ds)) \<and> length (snd (collect s ds)) < length ds) \<and>
   (\<forall>x s' ds n. step x s = Inr s' \<and> fn_dependencies (heap s' r) = Some ds \<and> n \<in> set ds \<and>
      dependencies s' n = Some JNull \<longrightarrow> calls_to r (calls s') = calls_to r (calls s))"
proof -
  have a: "k \<noteq> [] \<longrightarrow>
           (\<exists>s'. register (JStr k) JNull s = Inr s' \<and> dependencies s' k = Some JNull)"
    by (rule impI) (rule register_null_stored)
  have b: "\<forall>ds n. n \<in> set ds \<and> dependencies s n = Some JNull \<longrightarrow>
      JNull \<notin> set (snd (collect s ds)) \<and> length (snd (collect s ds)) < length ds"
  proof (intro allI impI)
    fix ds n assume "n \<in> set ds \<and> dependencies s n = Some JNull"
    then have "n \<in> set ds" and "dependencies s n = Some JNull" by simp_all
    then show "JNull \<notin> set (snd (collect s ds)) \<and> length (snd (collect s ds)) < length ds"
      by (rule null_skipped)
  qed
  have c: "\<forall>x s' ds n. step x s = Inr s' \<and> fn_dependencies (heap s' r) = Some ds \<and> n \<in> set ds \<and>
      dependencies s' n = Some JNull \<longrightarrow> calls_to r (calls s') = calls_to r (calls s)"
  proof (intro allI impI)
    fix x s' ds n
    assume "step x s = Inr s' \<and> fn_dependencies (heap s' r) = Some ds \<and> n \<in> set ds \<and>
      dependencies s' n = Some JNull"
    then have "step x s = Inr s'" and "fn_dependencies (heap s' r) = Some ds" and "n \<in> set ds"
      and "dependencies s' n = Some JNull" by simp_all
    then show "calls_to r (calls s') = calls_to r (calls s)" by (rule step_null_no_call)
  qed
  from a b c show ?thesis by (intro conjI)
qed

theorem C3_witness:
  "step (Register (JStr ''x'') JNull) waiting_x =
     Inr (final (step (Register (JStr ''x'') JNull) waiting_x)) \<and>
   fn_dependencies (heap (final (step (Register (JStr ''x'') JNull) waiting_x)) 0) = Some [''x''] \<and>
   dependencies (final (step (Register (JStr ''x'') JNull) waiting_x)) ''x'' = Some JNull \<and>
   calls_to 0 (calls (final (step (Register (JStr ''x'') JNull) waiting_x))) =
     calls_to 0 (calls waiting_x)"
proof -
  let ?s' = "final (step (Register (JStr ''x'') JNull) waiting_x)"
  have "\<not> isl (step (Register (JStr ''x'') JNull) waiting_x)" by code_simp
  then have h1: "step (Register (JStr ''x'') JNull) waiting_x = Inr ?s'" by (rule Inr_final)
  have h2: "fn_dependencies (heap ?s' 0) = Some [''x'']" by code_simp
  have h3: "''x'' \<in> set [''x'']" by simp
  have h4: "dependencies ?s' ''x'' = Some JNull" by code_simp
  note c = C3_null_never_ready [of "''x''" waiting_x 0]
  have "calls_to 0 (calls ?s') = calls_to 0 (calls waiting_x)"
    using c [THEN conjunct2, THEN conjunct2, THEN spec, THEN spec, THEN spec, THEN spec, THEN mp,
             OF conjI [OF h1 conjI [OF h2 conjI [OF h3 h4]]]] .
  with h1 h2 h4 show ?thesis by (intro conjI)
qed

lemma register_same_value:
  assumes "flagged s r" and "k \<noteq> []" and "v \<noteq> JUndefined"
    and "JSON_stringify v = JSON_stringify (lookup_dependency s k)"
  shows "\<exists>s'. register (JStr k) v s = Inr s' \<and>
              calls_to r (calls s') = calls_to r (calls s) \<and> flagged s' r"
proof -
  let ?mid = "before_dispatch k v s"
  have r: "register (JStr k) v s = Inr (inject_dependency k ?mid)"
    by (rule register_ok [OF assms(2,3)])
  from assms(1,4) have f: "flagged ?mid r" by (simp add: mid_flagged)
  then have c: "calls_to r (calls (inject_dependency k ?mid)) = calls_to r (calls s)"
    by (simp add: inj_dep_calls mid_calls)
  from f have "flagged (inject_dependency k ?mid) r" by (simp add: inj_dep_flagged)
  with r c show ?thesis by blast
qed

text \<open>
  Claim C4. When a resolver is flagged resolved, registering a name with a value whose
  serialized form equals that of the stored value does not invoke the resolver and leaves
  it flagged.
\<close>

theorem C4_same_value_idempotent:
  assumes "flagged s r" and "k \<noteq> []" and "v \<noteq> JUndefined"
    and "JSON_stringify v = JSON_stringify (lookup_dependency s k)"
  shows "\<exists>s'. register (JStr k) v s = Inr s' \<and>
              calls_to r (calls s') = calls_to r (calls s) \<and> flagged s' r"
  using assms by (rule register_same_value)

theorem C4_witness:
  "flagged satisfied_x 0 \<and>
   JSON_stringify (JStr ''v1'') = JSON_stringify (lookup_dependency satisfied_x ''x'') \<and>
   (\<exists>s'. register (JStr ''x'') (JStr ''v1'') satisfied_x = Inr s' \<and>
         calls_to 0 (calls s') = calls_to 0 (calls satisfied_x) \<and> flagged s' 0)"
proof -
  have h1: "flagged satisfied_x 0" by code_simp
  have h2: "''x'' \<noteq> []" by simp
  have h3: "JStr ''v1'' \<noteq> JUndefined" by simp
  have h4: "JSON_stringify (JStr ''v1'') = JSON_stringify (lookup_dependency satisfied_x ''x'')"
    by code_simp
  from C4_same_value_idempotent [OF h1 h2 h3 h4] h1 h4 show ?thesis by (intro conjI)
qed


section \<open>The first registration of a name\<close>

lemma attach_lookup: "lookup_dependency (fold (attach ds r) ns st) = lookup_dependency st"
  by (rule lookup_same) (rule attach_dependencies)

lemma attach_ready_self:
  assumes "ds \<noteq> []"
  shows "ready (fold (attach ds g) ds s) g \<longleftrightarrow> (\<forall>n\<in>set ds. not_nullish (lookup_dependency s n))"
  using assms by (simp add: ready_iff attach_fn attach_lookup)

lemma attach_pending_self:
  "(\<exists>n\<in>set ds. g \<in> set (pending (fold (attach ds g) ds s) n)) \<longleftrightarrow> ds \<noteq> []"
proof
  assume "\<exists>n\<in>set ds. g \<in> set (pending (fold (attach ds g) ds s) n)"
  then show "ds \<noteq> []" by auto
next
  assume "ds \<noteq> []"
  then obtain n where n: "n \<in> set ds" by (cases ds) auto
  then have "g \<in> set (pending (fold (attach ds g) ds s) n)" by (simp add: attach_pending_set)
  with n show "\<exists>n\<in>set ds. g \<in> set (pending (fold (attach ds g) ds s) n)" by blast
qed

lemma collect_all:
  assumes "\<forall>n\<in>set ds. not_nullish (lookup_dependency s n)"
  shows "snd (collect s ds) = map (lookup_dependency s) ds"
proof -
  from assms have "\<forall>v\<in>set (map (lookup_dependency s) ds). not_nullish v" by simp
  then have "filter not_nullish (map (lookup_dependency s) ds) = map (lookup_dependency s) ds"
    by (simp only: filter_id_conv)
  then show ?thesis by (simp only: collect_args)
qed

lemma resolve_not_ready:
  assumes "ds \<noteq> []" and "n \<in> set ds" and "\<not> not_nullish (lookup_dependency s n)"
  shows "\<exists>s1. resolve (NameList ds) (JFun g) s = Inr s1 \<and>
               calls_to g (calls s1) = calls_to g (calls s) \<and>
               fn_dependencies (heap s1 g) = Some ds \<and>
               dependencies s1 = dependencies s \<and>
               (flagged s1 g \<longleftrightarrow> flagged s g) \<and>
               (\<not> flagged s g \<longrightarrow> (\<forall>m\<in>set ds. g \<in> set (pending s1 m)))"
proof -
  let ?a = "fold (attach ds g) ds s"
  let ?s1 = "fold inject_dependency ds ?a"
  have r: "resolve (NameList ds) (JFun g) s = Inr ?s1" by (rule resolve_ok [OF assms(1)])
  from assms have nr: "\<not> ready ?a g" by (auto simp: attach_ready_self)
  then have c: "calls_to g (calls ?s1) = calls_to g (calls s)"
    by (simp add: inj_calls attach_calls)
  have "fn_dependencies (heap ?s1 g) = fn_dependencies (heap ?a g)"
    by (rule view_fn [OF inj_view])
  with assms(1) have fnd: "fn_dependencies (heap ?s1 g) = Some ds" by (simp add: attach_fn)
  have "dependencies ?s1 = dependencies ?a" by (rule view_deps [OF inj_view])
  then have d: "dependencies ?s1 = dependencies s" by (simp only: attach_dependencies)
  from nr have fl: "flagged ?s1 g \<longleftrightarrow> flagged s g" by (simp add: inj_flagged attach_flagged)
  have p: "\<forall>m\<in>set ds. g \<in> set (pending ?s1 m)" if "\<not> flagged s g"
    using that nr by (simp add: inj_pending attach_pending_set attach_flagged)
  from r c fnd d fl p show ?thesis by blast
qed

lemma register_invokes:
  assumes "N \<noteq> []" and "V \<noteq> JUndefined" and "V \<noteq> JNull"
    and "g \<in> set (pending s N)" and "fn_dependencies (heap s g) = Some [N]"
    and "\<not> flagged s g"
  shows "\<exists>s'. register (JStr N) V s = Inr s' \<and>
              calls_to g (calls s') =
                calls_to g (calls s) @ [\<lparr> callee = g, this_arg = [(N, V)], arguments = [V] \<rparr>]"
proof -
  let ?mid = "before_dispatch N V s"
  have r: "register (JStr N) V s = Inr (inject_dependency N ?mid)"
    by (rule register_ok [OF assms(1,2)])
  from assms(6) have nf: "\<not> flagged ?mid g" by (simp add: mid_flagged)
  from assms(2,3) have nn: "not_nullish V" by (simp add: not_nullish_def)
  with assms(5) have rd: "ready ?mid g" by (simp add: ready_iff mid_fn mid_lookup)
  from assms(4) have pe: "g \<in> set (pending ?mid N)" by (simp add: mid_pending)
  from nn assms(5) have tc: "the_call ?mid g = \<lparr> callee = g, this_arg = [(N, V)], arguments = [V] \<rparr>"
    by (simp add: the_call_def required_def mid_fn collect_def collect_step_def mid_lookup)
  from nf rd pe tc
  have "calls_to g (calls (inject_dependency N ?mid)) =
          calls_to g (calls s) @ [\<lparr> callee = g, this_arg = [(N, V)], arguments = [V] \<rparr>]"
    by (simp add: inj_dep_calls mid_calls)
  with r show ?thesis by blast
qed

text \<open>
  Claim C1, as amended. Callbacks return normally and do not call back into the registry.
  Let \<open>N\<close> be a non-empty name that was never registered, \<open>g\<close> a
  function that is not flagged resolved, and \<open>V\<close> a value other than \<open>undefined\<close> and
  \<open>null\<close>. Then \<open>resolve([N], g)\<close> returns without invoking \<open>g\<close>, and the following
  \<open>register(N, V)\<close> returns with exactly one more call to \<open>g\<close>, whose only positional
  argument is \<open>V\<close> and whose receiver maps \<open>N\<close> to \<open>V\<close>.
\<close>

theorem C1_first_registration:
  assumes "N \<noteq> []" and "dependencies s N = None" and "\<not> flagged s g"
    and "V \<noteq> JUndefined" and "V \<noteq> JNull"
  shows "\<exists>s1 s2. resolve (NameList [N]) (JFun g) s = Inr s1 \<and>
                 calls_to g (calls s1) = calls_to g (calls s) \<and>
                 register (JStr N) V s1 = Inr s2 \<and>
                 calls_to g (calls s2) =
                   calls_to g (calls s1) @
                     [\<lparr> callee = g, this_arg = [(N, V)], arguments = [V] \<rparr>]"
proof -
  from assms(2) have "\<not> not_nullish (lookup_dependency s N)"
    by (simp add: lookup_dependency_def not_nullish_def)
  from resolve_not_ready [of "[N]" N s g, OF _ _ this] assms(3)
  obtain s1 where s1: "resolve (NameList [N]) (JFun g) s = Inr s1"
      "calls_to g (calls s1) = calls_to g (calls s)"
      "fn_dependencies (heap s1 g) = Some [N]" "\<not> flagged s1 g" "g \<in> set (pending s1 N)"
    by auto
  from register_invokes [OF assms(1,4,5) s1(5,3,4)] obtain s2 where
    "register (JStr N) V s1 = Inr s2"
    "calls_to g (calls s2) =
       calls_to g (calls s1) @ [\<lparr> callee = g, this_arg = [(N, V)], arguments = [V] \<rparr>]"
    by blast
  with s1(1,2) show ?thesis by blast
qed

theorem C1_witness:
  "''x'' \<noteq> [] \<and> dependencies new_injector ''x'' = None \<and> \<not> flagged new_injector 0 \<and>
   (\<exists>s1 s2. resolve (NameList [''x'']) (JFun 0) new_injector = Inr s1 \<and>
            calls_to 0 (calls s1) = calls_to 0 (calls new_injector) \<and>
            register (JStr ''x'') (JStr ''v1'') s1 = Inr s2 \<and>
            calls_to 0 (calls s2) =
              calls_to 0 (calls s1) @
                [\<lparr> callee = 0, this_arg = [(''x'', JStr ''v1'')], arguments = [JStr ''v1''] \<rparr>])"
proof -
  have h1: "''x'' \<noteq> []" by simp
  have h2: "dependencies new_injector ''x'' = None"
    by (simp add: new_injector_def DependencyInjection_def)
  have h3: "\<not> flagged new_injector 0"
    by (simp add: new_injector_def DependencyInjection_def flagged_def fresh_heap_def)
  have h4: "JStr ''v1'' \<noteq> JUndefined" and h5: "JStr ''v1'' \<noteq> JNull" by simp_all
  from C1_first_registration [OF h1 h2 h3 h4 h5] h1 h2 h3 show ?thesis by (intro conjI)
qed

text \<open>
  Claim C1 as stated fails for \<open>V = null\<close>: \<open>register\<close> accepts the value, and the
  resolver waiting for the name is not invoked.
\<close>

theorem C1_null_counterexample:
  "\<not> isl (run [Resolve (NameList [''x'']) (JFun 0), Register (JStr ''x'') JNull] new_injector) \<and>
   dependencies new_injector ''x'' = None \<and>
   trace (run [Resolve (NameList [''x'']) (JFun 0), Register (JStr ''x'') JNull] new_injector) = []"
  by code_simp


section \<open>Resolving when every value is present\<close>

lemma resolve_invokes:
  assumes "ds \<noteq> []" and "\<forall>n\<in>set ds. not_nullish (lookup_dependency s n)"
    and "\<not> flagged s f"
  shows "\<exists>s'. resolve (NameList ds) (JFun f) s = Inr s' \<and>
              calls_to f (calls s') =
                calls_to f (calls s) @
                  [\<lparr> callee = f, this_arg = fst (collect s ds),
                     arguments = map (lookup_dependency s) ds \<rparr>]"
proof -
  let ?a = "fold (attach ds f) ds s"
  have r: "resolve (NameList ds) (JFun f) s = Inr (fold inject_dependency ds ?a)"
    by (rule resolve_ok [OF assms(1)])
  from assms(1,2) have rd: "ready ?a f" by (simp add: attach_ready_self)
  from assms(3) have nf: "\<not> flagged ?a f" by (simp add: attach_flagged)
  from assms(1) have pe: "\<exists>n\<in>set ds. f \<in> set (pending ?a n)"
    by (rule attach_pending_self [THEN iffD2])
  have "collect ?a = collect s" by (rule collect_same) (rule attach_dependencies)
  with assms(1) have "the_call ?a f =
      \<lparr> callee = f, this_arg = fst (collect s ds), arguments = snd (collect s ds) \<rparr>"
    by (simp add: the_call_def required_def attach_fn)
  then have tc: "the_call ?a f =
      \<lparr> callee = f, this_arg = fst (collect s ds), arguments = map (lookup_dependency s) ds \<rparr>"
    by (simp only: collect_all [OF assms(2)])
  from rd nf pe
  have "calls_to f (calls (fold inject_dependency ds ?a)) = calls_to f (calls ?a) @ [the_call ?a f]"
    by (simp only: inj_calls simp_thms if_True)
  then have "calls_to f (calls (fold inject_dependency ds ?a)) =
      calls_to f (calls s) @
        [\<lparr> callee = f, this_arg = fst (collect s ds), arguments = map (lookup_dependency s) ds \<rparr>]"
    by (simp only: tc attach_calls)
  with r show ?thesis by blast
qed

lemma collect_receiver:
  assumes "\<forall>n\<in>set ds. \<exists>v. dependencies s n = Some v \<and> v \<noteq> JNull \<and> v \<noteq> JUndefined"
  shows "map_of (fst (collect s ds)) n = (if n \<in> set ds then dependencies s n else None)"
    and "\<forall>n\<in>set ds. not_nullish (lookup_dependency s n)"
proof -
  show nn: "\<forall>n\<in>set ds. not_nullish (lookup_dependency s n)"
    using assms by (auto simp: lookup_dependency_def not_nullish_def)
  show "map_of (fst (collect s ds)) n = (if n \<in> set ds then dependencies s n else None)"
  proof (cases "n \<in> set ds")
    case True
    with assms obtain v where v: "dependencies s n = Some v" by blast
    from True nn have "not_nullish (lookup_dependency s n)" by blast
    with True have "map_of (fst (collect s ds)) n = Some (lookup_dependency s n)"
      by (simp add: collect_ctx)
    also have "\<dots> = dependencies s n" by (simp add: v lookup_dependency_def)
    finally show ?thesis using True by simp
  next
    case False
    then show ?thesis by (simp add: collect_ctx)
  qed
qed

text \<open>
  Claim C5, as amended. Callbacks return normally and do not call back into the registry.
  Let every name of the non-empty list \<open>names\<close> have a registered
  value other than \<open>null\<close>, and let \<open>f\<close> be a function that is not flagged resolved. Then
  \<open>resolve(names, f)\<close> returns with exactly one more call to \<open>f\<close>; its positional
  arguments are the registered values in the order of \<open>names\<close>, and its receiver maps each
  of the names, and nothing else, to its registered value.
\<close>

theorem C5_resolve_when_all_present:
  assumes "ds \<noteq> []"
    and "\<forall>n\<in>set ds. \<exists>v. dependencies s n = Some v \<and> v \<noteq> JNull \<and> v \<noteq> JUndefined"
    and "\<not> flagged s f"
  shows "\<exists>s' c. resolve (NameList ds) (JFun f) s = Inr s' \<and>
                calls_to f (calls s') = calls_to f (calls s) @ [c] \<and>
                callee c = f \<and>
                arguments c = map (lookup_dependency s) ds \<and>
                (\<forall>n. map_of (this_arg c) n = (if n \<in> set ds then dependencies s n else None))"
proof -
  let ?c = "\<lparr> callee = f, this_arg = fst (collect s ds),
              arguments = map (lookup_dependency s) ds \<rparr>"
  from resolve_invokes [OF assms(1) collect_receiver(2) [OF assms(2)] assms(3)]
  obtain s' where
    r: "resolve (NameList ds) (JFun f) s = Inr s'" and
    c: "calls_to f (calls s') = calls_to f (calls s) @ [?c]"
    by blast
  have m: "\<forall>n. map_of (this_arg ?c) n = (if n \<in> set ds then dependencies s n else None)"
    by (simp add: collect_receiver(1) [OF assms(2)])
  have "callee ?c = f" and "arguments ?c = map (lookup_dependency s) ds" by simp_all
  with r c m show ?thesis by blast
qed

theorem C5_witness:
  "dependencies registered_ab ''a'' = Some (JNum 1) \<and>
   dependencies registered_ab ''b'' = Some (JNum 2) \<and>
   \<not> flagged registered_ab 0 \<and>
   (\<exists>s' c. resolve (NameList [''a'', ''b'']) (JFun 0) registered_ab = Inr s' \<and>
           calls_to 0 (calls s') = calls_to 0 (calls registered_ab) @ [c] \<and>
           callee c = 0 \<and>
           arguments c = map (lookup_dependency registered_ab) [''a'', ''b''] \<and>
           (\<forall>n. map_of (this_arg c) n =
                  (if n \<in> set [''a'', ''b''] then dependencies registered_ab n else None)))"
proof -
  have h1: "[''a'', ''b''] \<noteq> []" by simp
  have a: "dependencies registered_ab ''a'' = Some (JNum 1)" by code_simp
  have b: "dependencies registered_ab ''b'' = Some (JNum 2)" by code_simp
  have h2: "\<forall>n\<in>set [''a'', ''b''].
      \<exists>v. dependencies registered_ab n = Some v \<and> v \<noteq> JNull \<and> v \<noteq> JUndefined"
    by (simp add: a b)
  have h3: "\<not> flagged registered_ab 0" by code_simp
  from C5_resolve_when_all_present [OF h1 h2 h3] a b h3 show ?thesis by (intro conjI)
qed

text \<open>
  Claim C5 as stated fails when a registered value is \<open>null\<close>: the name has a registered
  value, and \<open>resolve\<close> returns without invoking the resolver.
\<close>

theorem C5_null_counterexample:
  "\<not> isl (run [Register (JStr ''a'') JNull, Resolve (NameList [''a'']) (JFun 0)] new_injector) \<and>
   dependencies (final (run [Register (JStr ''a'') JNull] new_injector)) ''a'' = Some JNull \<and>
   trace (run [Register (JStr ''a'') JNull, Resolve (NameList [''a'']) (JFun 0)] new_injector) = []"
  by code_simp


section \<open>Removal in two phases\<close>


lemma dispatch_satisfies:
  assumes "calls_to r (calls (inject_dependency A s)) \<noteq> calls_to r (calls s)"
  shows "r \<in> set (pending s A)" and "\<not> flagged s r" and "ready s r"
proof -
  from assms have "r \<in> set (pending s A) \<and> \<not> flagged s r \<and> ready s r"
    by (simp add: inj_dep_calls split: if_splits)
  then show "r \<in> set (pending s A)" and "\<not> flagged s r" and "ready s r" by simp_all
qed







section \<open>Registering a changed value\<close>

text \<open>
  Claim C2 on the code: after \<open>resolve(["x"], g)\<close> and \<open>register("x", "v1")\<close> the resolver
  has left the pending list of \<open>x\<close>, so a later \<open>register("x", "v2")\<close>, whose serialized
  form differs, neither clears its flag nor invokes it: the trace holds the call with
  \<open>"v1"\<close> only.
\<close>

theorem C2_changed_value_not_redelivered:
  "trace (run [Resolve (NameList [''x'']) (JFun 0),
               Register (JStr ''x'') (JStr ''v1''),
               Register (JStr ''x'') (JStr ''v1''),
               Register (JStr ''x'') (JStr ''v2'')] new_injector) =
     [\<lparr> callee = 0, this_arg = [(''x'', JStr ''v1'')], arguments = [JStr ''v1''] \<rparr>] \<and>
   JSON_stringify (JStr ''v2'') \<noteq> JSON_stringify (JStr ''v1'') \<and>
   flagged (final (run [Resolve (NameList [''x'']) (JFun 0),
                        Register (JStr ''x'') (JStr ''v1''),
                        Register (JStr ''x'') (JStr ''v1''),
                        Register (JStr ''x'') (JStr ''v2'')] new_injector)) 0 \<and>
   pending satisfied_x ''x'' = []"
  by code_simp


section \<open>No invocation before every name is registered\<close>

lemma ready_dom:
  assumes "ready s f" and "fn_dependencies (heap s f) = Some ds"
  shows "set ds \<subseteq> dom (dependencies s)"
proof
  fix n assume "n \<in> set ds"
  with assms have "not_nullish (lookup_dependency s n)" by (auto simp: ready_iff)
  then show "n \<in> dom (dependencies s)"
    by (auto simp: lookup_dependency_def not_nullish_def split: option.splits)
qed

lemma register_call_dom:
  assumes "register (JStr k) v s = Inr s'" and "fn_dependencies (heap s f) = Some ds"
    and "calls_to f (calls s') \<noteq> calls_to f (calls s)"
  shows "set ds \<subseteq> insert k (dom (dependencies s))"
proof -
  let ?mid = "before_dispatch k v s"
  have s': "s' = inject_dependency k ?mid" by (rule register_Inr_eq(3) [OF assms(1)])
  from assms(3) have "calls_to f (calls (inject_dependency k ?mid)) \<noteq> calls_to f (calls ?mid)"
    unfolding s' by (simp add: mid_calls)
  then have "ready ?mid f" by (rule dispatch_satisfies(3))
  moreover from assms(2) have "fn_dependencies (heap ?mid f) = Some ds" by (simp add: mid_fn)
  ultimately have "set ds \<subseteq> dom (dependencies ?mid)" by (rule ready_dom)
  then show ?thesis by (simp add: mid_dependencies)
qed

lemma register_fn:
  assumes "register (JStr k) v s = Inr s'"
  shows "fn_dependencies (heap s' f) = fn_dependencies (heap s f)"
  unfolding register_Inr_eq(3) [OF assms]
  by (simp only: view_fn [OF inj_dep_view] mid_fn)

lemma register_dom:
  assumes "register (JStr k) v s = Inr s'"
  shows "dom (dependencies s') = insert k (dom (dependencies s))"
  by (simp add: register_frame [OF assms])

lemma run_registrations_Cons:
  "run (registrations (kv # regs)) s =
     (case register (JStr (fst kv)) (snd kv) s of
        Inl e \<Rightarrow> Inl e
      | Inr s' \<Rightarrow> run (registrations regs) s')"
  unfolding registrations_def by simp

lemma registrations_safety:
  assumes "fn_dependencies (heap s f) = Some ds"
    and "run (registrations regs) s = Inr s2"
    and "calls_to f (calls s2) \<noteq> calls_to f (calls s)"
  shows "set ds \<subseteq> dom (dependencies s) \<union> fst ` set regs"
  using assms
proof (induction regs arbitrary: s)
  case Nil
  then show ?case by (simp add: registrations_def)
next
  case (Cons kv regs)
  from Cons.prems(2) obtain s' where
    r: "register (JStr (fst kv)) (snd kv) s = Inr s'" and
    rest: "run (registrations regs) s' = Inr s2"
    by (auto simp: run_registrations_Cons split: sum.splits)
  show ?case
  proof (cases "calls_to f (calls s') = calls_to f (calls s)")
    case False
    from register_call_dom [OF r Cons.prems(1) False] show ?thesis by auto
  next
    case True
    with Cons.prems(3) have "calls_to f (calls s2) \<noteq> calls_to f (calls s')" by simp
    with Cons.IH [of s'] Cons.prems(1) rest
    have "set ds \<subseteq> dom (dependencies s') \<union> fst ` set regs"
      by (simp add: register_fn [OF r])
    then show ?thesis by (auto simp: register_dom [OF r])
  qed
qed

lemma resolve_state:
  assumes "ds \<noteq> []"
  shows "\<exists>s1. resolve (NameList ds) (JFun f) s = Inr s1 \<and>
              fn_dependencies (heap s1 f) = Some ds \<and>
              dependencies s1 = dependencies s \<and>
              (calls_to f (calls s1) \<noteq> calls_to f (calls s) \<longrightarrow>
                 set ds \<subseteq> dom (dependencies s))"
proof -
  let ?a = "fold (attach ds f) ds s"
  let ?s1 = "fold inject_dependency ds ?a"
  have r: "resolve (NameList ds) (JFun f) s = Inr ?s1" by (rule resolve_ok [OF assms])
  have "fn_dependencies (heap ?s1 f) = fn_dependencies (heap ?a f)"
    by (rule view_fn [OF inj_view])
  with assms have fnd: "fn_dependencies (heap ?s1 f) = Some ds" by (simp add: attach_fn)
  have "dependencies ?s1 = dependencies ?a" by (rule view_deps [OF inj_view])
  then have d: "dependencies ?s1 = dependencies s" by (simp only: attach_dependencies)
  have c: "set ds \<subseteq> dom (dependencies s)"
    if "calls_to f (calls ?s1) \<noteq> calls_to f (calls s)"
  proof -
    from that have "ready ?a f" by (simp add: inj_calls attach_calls split: if_splits)
    moreover from assms have "fn_dependencies (heap ?a f) = Some ds" by (simp add: attach_fn)
    ultimately have "set ds \<subseteq> dom (dependencies ?a)" by (rule ready_dom)
    then show ?thesis by (simp only: attach_dependencies)
  qed
  from r fnd d c show ?thesis by blast
qed

lemma register_waits:
  assumes "k \<noteq> []" and "v \<noteq> JUndefined"
    and "fn_dependencies (heap s g) = Some ds" and "n \<in> set ds" and "n \<noteq> k"
    and "\<not> not_nullish (lookup_dependency s n)" and "\<not> flagged s g"
  shows "\<exists>s'. register (JStr k) v s = Inr s' \<and>
              calls_to g (calls s') = calls_to g (calls s) \<and>
              \<not> flagged s' g \<and>
              fn_dependencies (heap s' g) = Some ds \<and>
              (\<forall>m. g \<in> set (pending s m) \<longrightarrow> g \<in> set (pending s' m)) \<and>
              lookup_dependency s' k = v"
proof -
  let ?mid = "before_dispatch k v s"
  let ?s' = "inject_dependency k ?mid"
  have r: "register (JStr k) v s = Inr ?s'" by (rule register_ok [OF assms(1,2)])
  from assms(3,4,5,6) have nr: "\<not> ready ?mid g"
    by (auto simp: ready_iff mid_fn mid_lookup)
  from assms(7) have nf: "\<not> flagged ?mid g" by (simp add: mid_flagged)
  from nr have c: "calls_to g (calls ?s') = calls_to g (calls s)"
    by (simp add: inj_dep_calls mid_calls)
  from nr nf have f: "\<not> flagged ?s' g" by (simp add: inj_dep_flagged)
  have "fn_dependencies (heap ?s' g) = fn_dependencies (heap ?mid g)"
    by (rule view_fn [OF inj_dep_view])
  with assms(3) have d: "fn_dependencies (heap ?s' g) = Some ds" by (simp add: mid_fn)
  from nr nf have p: "\<forall>m. g \<in> set (pending s m) \<longrightarrow> g \<in> set (pending ?s' m)"
    by (simp add: inj_dep_member mid_pending)
  have "lookup_dependency ?s' = lookup_dependency ?mid"
    by (rule lookup_same) (rule view_deps [OF inj_dep_view])
  then have l: "lookup_dependency ?s' k = v" by (simp add: mid_lookup)
  from r c f d p l show ?thesis by blast
qed

lemma register_completes:
  assumes "k \<noteq> []" and "v \<noteq> JUndefined" and "v \<noteq> JNull"
    and "g \<in> set (pending s k)" and "fn_dependencies (heap s g) = Some ds"
    and "\<not> flagged s g"
    and "\<forall>n\<in>set ds. n \<noteq> k \<longrightarrow> not_nullish (lookup_dependency s n)"
  shows "\<exists>s' c. register (JStr k) v s = Inr s' \<and>
                calls_to g (calls s') = calls_to g (calls s) @ [c] \<and>
                callee c = g \<and>
                arguments c = map (\<lambda>n. if n = k then v else lookup_dependency s n) ds"
proof -
  let ?mid = "before_dispatch k v s"
  let ?s' = "inject_dependency k ?mid"
  have r: "register (JStr k) v s = Inr ?s'" by (rule register_ok [OF assms(1,2)])
  from assms(2,3) have nn: "not_nullish v" by (simp add: not_nullish_def)
  with assms(7) have all: "\<forall>n\<in>set ds. not_nullish (lookup_dependency ?mid n)"
    by (simp add: mid_lookup)
  with assms(5) have rd: "ready ?mid g" by (simp add: ready_iff mid_fn)
  from assms(6) have nf: "\<not> flagged ?mid g" by (simp add: mid_flagged)
  from assms(4) have pe: "g \<in> set (pending ?mid k)" by (simp add: mid_pending)
  from rd nf pe have c: "calls_to g (calls ?s') = calls_to g (calls s) @ [the_call ?mid g]"
    by (simp add: inj_dep_calls mid_calls)
  from assms(5) have "arguments (the_call ?mid g) = snd (collect ?mid ds)"
    by (simp add: the_call_def required_def mid_fn)
  also have "\<dots> = map (lookup_dependency ?mid) ds" by (rule collect_all [OF all])
  also have "\<dots> = map (\<lambda>n. if n = k then v else lookup_dependency s n) ds"
    by (simp add: mid_lookup)
  finally have a: "arguments (the_call ?mid g) =
      map (\<lambda>n. if n = k then v else lookup_dependency s n) ds" .
  from r c a callee_the_call [of ?mid g] show ?thesis by blast
qed

lemma deferred_then_invoked:
  assumes "fn_dependencies (heap s1 f) = Some [A, B]" and "\<not> flagged s1 f"
    and "f \<in> set (pending s1 X)" and "f \<in> set (pending s1 Y)"
    and "(X = A \<and> Y = B) \<or> (X = B \<and> Y = A)" and "A \<noteq> B"
    and "\<not> not_nullish (lookup_dependency s1 Y)"
    and "X \<noteq> []" and "Y \<noteq> []" and "not_nullish vX" and "not_nullish vY"
  shows "\<exists>s2 s3 c. register (JStr X) vX s1 = Inr s2 \<and>
                   calls_to f (calls s2) = calls_to f (calls s1) \<and>
                   register (JStr Y) vY s2 = Inr s3 \<and>
                   calls_to f (calls s3) = calls_to f (calls s1) @ [c] \<and>
                   callee c = f \<and>
                   arguments c = map (\<lambda>n. if n = Y then vY else vX) [A, B]"
proof -
  from assms(10,11) have v: "vX \<noteq> JUndefined" "vY \<noteq> JUndefined" "vY \<noteq> JNull"
    by (simp_all add: not_nullish_def)
  from assms(5,6) have yx: "Y \<in> set [A, B]" "Y \<noteq> X" by auto
  from register_waits [OF assms(8) v(1) assms(1) yx assms(7) assms(2)]
  obtain s2 where s2: "register (JStr X) vX s1 = Inr s2"
    "calls_to f (calls s2) = calls_to f (calls s1)" "\<not> flagged s2 f"
    "fn_dependencies (heap s2 f) = Some [A, B]"
    "\<forall>m. f \<in> set (pending s1 m) \<longrightarrow> f \<in> set (pending s2 m)"
    "lookup_dependency s2 X = vX"
    by (elim exE conjE) (rule that)
  from s2(5) assms(4) have pe: "f \<in> set (pending s2 Y)" by blast
  from assms(5,10) s2(6)
  have rest: "\<forall>n\<in>set [A, B]. n \<noteq> Y \<longrightarrow> not_nullish (lookup_dependency s2 n)" by auto
  from register_completes [OF assms(9) v(2,3) pe s2(4,3) rest]
  obtain s3 c where s3: "register (JStr Y) vY s2 = Inr s3"
    "calls_to f (calls s3) = calls_to f (calls s2) @ [c]" "callee c = f"
    "arguments c = map (\<lambda>n. if n = Y then vY else lookup_dependency s2 n) [A, B]"
    by (elim exE conjE) (rule that)
  from assms(5,6) s2(6) s3(4)
  have a: "arguments c = map (\<lambda>n. if n = Y then vY else vX) [A, B]" by auto
  from s2(1,2) s3(1,2,3) a show ?thesis by (simp only:) blast
qed

lemma resolve_defers:
  assumes "dependencies s A = None \<or> dependencies s B = None"
    and "resolve (NameList [A, B]) (JFun f) s = Inr s1"
  shows "calls_to f (calls s1) = calls_to f (calls s)"
    and "fn_dependencies (heap s1 f) = Some [A, B]"
    and "dependencies s1 = dependencies s"
    and "\<not> flagged s f \<Longrightarrow> \<not> flagged s1 f \<and> f \<in> set (pending s1 A) \<and> f \<in> set (pending s1 B)"
proof -
  have nn: "\<not> not_nullish (lookup_dependency s m)" if "dependencies s m = None" for m
    using that by (simp add: lookup_dependency_def not_nullish_def)
  from assms(1) nn [of A] nn [of B]
  have "\<exists>n. n \<in> set [A, B] \<and> \<not> not_nullish (lookup_dependency s n)" by auto
  then obtain n where n: "n \<in> set [A, B]" "\<not> not_nullish (lookup_dependency s n)" by blast
  from resolve_not_ready [of "[A, B]" n s f, OF _ n] obtain t where
    t: "resolve (NameList [A, B]) (JFun f) s = Inr t" and
    tc: "calls_to f (calls t) = calls_to f (calls s)" and
    tf: "fn_dependencies (heap t f) = Some [A, B]" and
    td: "dependencies t = dependencies s" and
    tg: "flagged t f \<longleftrightarrow> flagged s f" and
    tp: "\<not> flagged s f \<longrightarrow> (\<forall>m\<in>set [A, B]. f \<in> set (pending t m))"
    by auto
  from assms(2) t have e: "t = s1" by simp
  from tc e show "calls_to f (calls s1) = calls_to f (calls s)" by simp
  from tf e show "fn_dependencies (heap s1 f) = Some [A, B]" by simp
  from td e show "dependencies s1 = dependencies s" by simp
  show "\<not> flagged s1 f \<and> f \<in> set (pending s1 A) \<and> f \<in> set (pending s1 B)"
    if "\<not> flagged s f"
    using that tg tp e by simp
qed

lemma deferred_both_orders:
  assumes "resolve (NameList [A, B]) (JFun f) s = Inr s1"
    and "\<not> flagged s f" and "dependencies s A = None" and "dependencies s B = None"
    and "A \<noteq> []" and "B \<noteq> []" and "A \<noteq> B" and "not_nullish vA" and "not_nullish vB"
  shows "(\<exists>s2 s3 c. register (JStr A) vA s1 = Inr s2 \<and>
            calls_to f (calls s2) = calls_to f (calls s) \<and>
            register (JStr B) vB s2 = Inr s3 \<and>
            calls_to f (calls s3) = calls_to f (calls s) @ [c] \<and>
            callee c = f \<and> arguments c = [vA, vB]) \<and>
         (\<exists>s2 s3 c. register (JStr B) vB s1 = Inr s2 \<and>
            calls_to f (calls s2) = calls_to f (calls s) \<and>
            register (JStr A) vA s2 = Inr s3 \<and>
            calls_to f (calls s3) = calls_to f (calls s) @ [c] \<and>
            callee c = f \<and> arguments c = [vA, vB])"
proof -
  from assms(3) have one: "dependencies s A = None \<or> dependencies s B = None" by simp
  note d = resolve_defers [OF one assms(1)]
  from d(4) [OF assms(2)] have nf: "\<not> flagged s1 f" and pa: "f \<in> set (pending s1 A)"
    and pb: "f \<in> set (pending s1 B)" by simp_all
  from assms(3,4) d(3) have na: "\<not> not_nullish (lookup_dependency s1 A)"
    and nb: "\<not> not_nullish (lookup_dependency s1 B)"
    by (simp_all add: lookup_dependency_def not_nullish_def)
  have ab: "(A = A \<and> B = B) \<or> (A = B \<and> B = A)" by simp
  have ba: "(B = A \<and> A = B) \<or> (B = B \<and> A = A)" by simp
  from deferred_then_invoked [OF d(2) nf pa pb ab assms(7) nb assms(5,6,8,9)] assms(7)
  have first: "\<exists>s2 s3 c. register (JStr A) vA s1 = Inr s2 \<and>
            calls_to f (calls s2) = calls_to f (calls s) \<and>
            register (JStr B) vB s2 = Inr s3 \<and>
            calls_to f (calls s3) = calls_to f (calls s) @ [c] \<and>
            callee c = f \<and> arguments c = [vA, vB]"
    by (simp add: d(1))
  from deferred_then_invoked [OF d(2) nf pb pa ba assms(7) na assms(6,5,9,8)] assms(7)
  have second: "\<exists>s2 s3 c. register (JStr B) vB s1 = Inr s2 \<and>
            calls_to f (calls s2) = calls_to f (calls s) \<and>
            register (JStr A) vA s2 = Inr s3 \<and>
            calls_to f (calls s3) = calls_to f (calls s) @ [c] \<and>
            callee c = f \<and> arguments c = [vA, vB]"
    by (simp add: d(1))
  from first second show ?thesis by (rule conjI)
qed

text \<open>
  Claim C6, as amended. Callbacks return normally and do not call back into the registry.
  \<open>resolve([A, B], f)\<close> always returns normally. Whatever sequence of \<open>register\<close> calls
  follows, if \<open>f\<close> has been invoked by the end of it then each of \<open>A\<close> and \<open>B\<close> was
  registered, before the \<open>resolve\<close> or by one of the calls; as this holds for every
  sequence, it holds at every point of one. When \<open>A\<close> or \<open>B\<close> is not registered yet the
  \<open>resolve\<close> does not invoke \<open>f\<close>. When moreover \<open>f\<close> is not already flagged resolved,
  \<open>f\<close> is then pending on both names, and, for distinct non-empty names neither of which
  is registered, registering both with values other than \<open>null\<close>, in either order, invokes
  \<open>f\<close> exactly once, at the second registration, with the two values in the order of the
  names.
\<close>

theorem C6_never_before_both:
  "\<exists>s1. resolve (NameList [A, B]) (JFun f) s = Inr s1 \<and>
      (dependencies s A = None \<or> dependencies s B = None \<longrightarrow>
         calls_to f (calls s1) = calls_to f (calls s) \<and>
         (\<not> flagged s f \<longrightarrow> f \<in> set (pending s1 A) \<and> f \<in> set (pending s1 B))) \<and>
      (\<forall>regs s2. run (registrations regs) s1 = Inr s2 \<and>
                  calls_to f (calls s2) \<noteq> calls_to f (calls s) \<longrightarrow>
         A \<in> dom (dependencies s) \<union> fst ` set regs \<and>
         B \<in> dom (dependencies s) \<union> fst ` set regs) \<and>
      (\<forall>vA vB. \<not> flagged s f \<and> dependencies s A = None \<and> dependencies s B = None \<and>
                 A \<noteq> [] \<and> B \<noteq> [] \<and> A \<noteq> B \<and> not_nullish vA \<and> not_nullish vB \<longrightarrow>
         (\<exists>s2 s3 c. register (JStr A) vA s1 = Inr s2 \<and>
            calls_to f (calls s2) = calls_to f (calls s) \<and>
            register (JStr B) vB s2 = Inr s3 \<and>
            calls_to f (calls s3) = calls_to f (calls s) @ [c] \<and>
            callee c = f \<and> arguments c = [vA, vB]) \<and>
         (\<exists>s2 s3 c. register (JStr B) vB s1 = Inr s2 \<and>
            calls_to f (calls s2) = calls_to f (calls s) \<and>
            register (JStr A) vA s2 = Inr s3 \<and>
            calls_to f (calls s3) = calls_to f (calls s) @ [c] \<and>
            callee c = f \<and> arguments c = [vA, vB]))"
proof -
  from resolve_state [of "[A, B]" f s] obtain s1 where
    r: "resolve (NameList [A, B]) (JFun f) s = Inr s1" and
    fnd: "fn_dependencies (heap s1 f) = Some [A, B]" and
    d: "dependencies s1 = dependencies s" and
    c: "calls_to f (calls s1) \<noteq> calls_to f (calls s) \<longrightarrow> set [A, B] \<subseteq> dom (dependencies s)"
    by auto
  have d': "dependencies s A = None \<or> dependencies s B = None \<longrightarrow>
         calls_to f (calls s1) = calls_to f (calls s) \<and>
         (\<not> flagged s f \<longrightarrow> f \<in> set (pending s1 A) \<and> f \<in> set (pending s1 B))"
  proof
    assume one: "dependencies s A = None \<or> dependencies s B = None"
    from resolve_defers(1) [OF one r] resolve_defers(4) [OF one r]
    show "calls_to f (calls s1) = calls_to f (calls s) \<and>
         (\<not> flagged s f \<longrightarrow> f \<in> set (pending s1 A) \<and> f \<in> set (pending s1 B))"
      by blast
  qed
  have safe: "A \<in> dom (dependencies s) \<union> fst ` set regs \<and>
              B \<in> dom (dependencies s) \<union> fst ` set regs"
    if run: "run (registrations regs) s1 = Inr s2"
      and diff: "calls_to f (calls s2) \<noteq> calls_to f (calls s)" for regs s2
  proof (cases "calls_to f (calls s1) = calls_to f (calls s)")
    case True
    with diff have "calls_to f (calls s2) \<noteq> calls_to f (calls s1)" by simp
    from registrations_safety [OF fnd run this]
    have "set [A, B] \<subseteq> dom (dependencies s) \<union> fst ` set regs" by (simp only: d)
    then show ?thesis by simp
  next
    case False
    with c have "set [A, B] \<subseteq> dom (dependencies s)" by blast
    then show ?thesis by auto
  qed
  have s': "\<forall>regs s2. run (registrations regs) s1 = Inr s2 \<and>
                  calls_to f (calls s2) \<noteq> calls_to f (calls s) \<longrightarrow>
         A \<in> dom (dependencies s) \<union> fst ` set regs \<and>
         B \<in> dom (dependencies s) \<union> fst ` set regs"
  proof (intro allI impI)
    fix regs s2
    assume "run (registrations regs) s1 = Inr s2 \<and>
            calls_to f (calls s2) \<noteq> calls_to f (calls s)"
    then have "run (registrations regs) s1 = Inr s2"
      and "calls_to f (calls s2) \<noteq> calls_to f (calls s)" by simp_all
    then show "A \<in> dom (dependencies s) \<union> fst ` set regs \<and>
               B \<in> dom (dependencies s) \<union> fst ` set regs"
      by (rule safe)
  qed
  have l': "\<forall>vA vB. \<not> flagged s f \<and> dependencies s A = None \<and> dependencies s B = None \<and>
                 A \<noteq> [] \<and> B \<noteq> [] \<and> A \<noteq> B \<and> not_nullish vA \<and> not_nullish vB \<longrightarrow>
         (\<exists>s2 s3 c. register (JStr A) vA s1 = Inr s2 \<and>
            calls_to f (calls s2) = calls_to f (calls s) \<and>
            register (JStr B) vB s2 = Inr s3 \<and>
            calls_to f (calls s3) = calls_to f (calls s) @ [c] \<and>
            callee c = f \<and> arguments c = [vA, vB]) \<and>
         (\<exists>s2 s3 c. register (JStr B) vB s1 = Inr s2 \<and>
            calls_to f (calls s2) = calls_to f (calls s) \<and>
            register (JStr A) vA s2 = Inr s3 \<and>
            calls_to f (calls s3) = calls_to f (calls s) @ [c] \<and>
            callee c = f \<and> arguments c = [vA, vB])"
  proof (intro allI impI)
    fix vA vB
    assume "\<not> flagged s f \<and> dependencies s A = None \<and> dependencies s B = None \<and>
            A \<noteq> [] \<and> B \<noteq> [] \<and> A \<noteq> B \<and> not_nullish vA \<and> not_nullish vB"
    then have "\<not> flagged s f" and "dependencies s A = None" and "dependencies s B = None"
      and "A \<noteq> []" and "B \<noteq> []" and "A \<noteq> B" and "not_nullish vA" and "not_nullish vB"
      by simp_all
    then show "(\<exists>s2 s3 c. register (JStr A) vA s1 = Inr s2 \<and>
            calls_to f (calls s2) = calls_to f (calls s) \<and>
            register (JStr B) vB s2 = Inr s3 \<and>
            calls_to f (calls s3) = calls_to f (calls s) @ [c] \<and>
            callee c = f \<and> arguments c = [vA, vB]) \<and>
         (\<exists>s2 s3 c. register (JStr B) vB s1 = Inr s2 \<and>
            calls_to f (calls s2) = calls_to f (calls s) \<and>
            register (JStr A) vA s2 = Inr s3 \<and>
            calls_to f (calls s3) = calls_to f (calls s) @ [c] \<and>
            callee c = f \<and> arguments c = [vA, vB])"
      by (rule deferred_both_orders [OF r])
  qed
  from r d' s' l' show ?thesis by (intro exI [of _ s1] conjI)
qed

theorem C6_witness:
  "resolve (NameList [''a'', ''b'']) (JFun 0) new_injector = Inr attached_ab \<and>
   dependencies new_injector ''a'' = None \<and>
   dependencies new_injector ''b'' = None \<and>
   \<not> flagged new_injector 0 \<and>
   calls_to 0 (calls attached_ab) = calls_to 0 (calls new_injector) \<and>
   run (registrations [(''a'', JNum 1), (''b'', JNum 2)]) attached_ab =
     Inr (final (run (registrations [(''a'', JNum 1), (''b'', JNum 2)]) attached_ab)) \<and>
   calls_to 0 (calls (final (run (registrations [(''a'', JNum 1), (''b'', JNum 2)]) attached_ab)))
     \<noteq> calls_to 0 (calls new_injector) \<and>
   ''a'' \<in> dom (dependencies new_injector) \<union> fst ` set [(''a'', JNum 1), (''b'', JNum 2)] \<and>
   ''b'' \<in> dom (dependencies new_injector) \<union> fst ` set [(''a'', JNum 1), (''b'', JNum 2)] \<and>
   (\<exists>s2 s3 c. register (JStr ''b'') (JNum 2) attached_ab = Inr s2 \<and>
      calls_to 0 (calls s2) = calls_to 0 (calls new_injector) \<and>
      register (JStr ''a'') (JNum 1) s2 = Inr s3 \<and>
      calls_to 0 (calls s3) = calls_to 0 (calls new_injector) @ [c] \<and>
      callee c = 0 \<and> arguments c = [JNum 1, JNum 2])"
proof -
  let ?regs = "[(''a'', JNum 1), (''b'', JNum 2)]"
  let ?s2 = "final (run (registrations ?regs) attached_ab)"
  have "\<not> isl (resolve (NameList [''a'', ''b'']) (JFun 0) new_injector)" by code_simp
  then have h0: "resolve (NameList [''a'', ''b'']) (JFun 0) new_injector = Inr attached_ab"
    unfolding attached_ab_def by (rule Inr_final)
  have h1: "dependencies new_injector ''a'' = None"
    and h1b: "dependencies new_injector ''b'' = None"
    by (simp_all add: new_injector_def DependencyInjection_def)
  have nf: "\<not> flagged new_injector 0"
    by (simp add: new_injector_def DependencyInjection_def flagged_def fresh_heap_def)
  have "\<not> isl (run (registrations ?regs) attached_ab)" by code_simp
  then have h2: "run (registrations ?regs) attached_ab = Inr ?s2" by (rule Inr_final)
  have h3: "calls_to 0 (calls ?s2) \<noteq> calls_to 0 (calls new_injector)" by code_simp
  from C6_never_before_both [of "''a''" "''b''" 0 new_injector] obtain s1 where
    r: "resolve (NameList [''a'', ''b'']) (JFun 0) new_injector = Inr s1" and
    deferred: "dependencies new_injector ''a'' = None \<or> dependencies new_injector ''b'' = None \<longrightarrow>
         calls_to 0 (calls s1) = calls_to 0 (calls new_injector) \<and>
         (\<not> flagged new_injector 0 \<longrightarrow>
            0 \<in> set (pending s1 ''a'') \<and> 0 \<in> set (pending s1 ''b''))" and
    safe: "\<forall>regs s2. run (registrations regs) s1 = Inr s2 \<and>
                  calls_to 0 (calls s2) \<noteq> calls_to 0 (calls new_injector) \<longrightarrow>
         ''a'' \<in> dom (dependencies new_injector) \<union> fst ` set regs \<and>
         ''b'' \<in> dom (dependencies new_injector) \<union> fst ` set regs" and
    live: "\<forall>vA vB. \<not> flagged new_injector 0 \<and> dependencies new_injector ''a'' = None \<and>
                 dependencies new_injector ''b'' = None \<and>
                 ''a'' \<noteq> [] \<and> ''b'' \<noteq> [] \<and> ''a'' \<noteq> ''b'' \<and>
                 not_nullish vA \<and> not_nullish vB \<longrightarrow>
         (\<exists>s2 s3 c. register (JStr ''a'') vA s1 = Inr s2 \<and>
            calls_to 0 (calls s2) = calls_to 0 (calls new_injector) \<and>
            register (JStr ''b'') vB s2 = Inr s3 \<and>
            calls_to 0 (calls s3) = calls_to 0 (calls new_injector) @ [c] \<and>
            callee c = 0 \<and> arguments c = [vA, vB]) \<and>
         (\<exists>s2 s3 c. register (JStr ''b'') vB s1 = Inr s2 \<and>
            calls_to 0 (calls s2) = calls_to 0 (calls new_injector) \<and>
            register (JStr ''a'') vA s2 = Inr s3 \<and>
            calls_to 0 (calls s3) = calls_to 0 (calls new_injector) @ [c] \<and>
            callee c = 0 \<and> arguments c = [vA, vB])"
    by (elim exE conjE) (rule that)
  from r h0 have s1: "s1 = attached_ab" by simp
  from deferred h1 have c: "calls_to 0 (calls attached_ab) = calls_to 0 (calls new_injector)"
    unfolding s1 by blast
  from safe [unfolded s1, THEN spec, THEN spec, THEN mp, OF conjI [OF h2 h3]]
  have concl: "''a'' \<in> dom (dependencies new_injector) \<union> fst ` set ?regs"
              "''b'' \<in> dom (dependencies new_injector) \<union> fst ` set ?regs" by simp_all
  have hyp: "\<not> flagged new_injector 0 \<and> dependencies new_injector ''a'' = None \<and>
                 dependencies new_injector ''b'' = None \<and>
                 ''a'' \<noteq> [] \<and> ''b'' \<noteq> [] \<and> ''a'' \<noteq> ''b'' \<and>
                 not_nullish (JNum 1) \<and> not_nullish (JNum 2)"
    using nf h1 h1b by (simp add: not_nullish_def)
  from live [unfolded s1, THEN spec, THEN spec, THEN mp, OF hyp, THEN conjunct2]
  have second: "\<exists>s2 s3 c. register (JStr ''b'') (JNum 2) attached_ab = Inr s2 \<and>
      calls_to 0 (calls s2) = calls_to 0 (calls new_injector) \<and>
      register (JStr ''a'') (JNum 1) s2 = Inr s3 \<and>
      calls_to 0 (calls s3) = calls_to 0 (calls new_injector) @ [c] \<and>
      callee c = 0 \<and> arguments c = [JNum 1, JNum 2]" .
  show ?thesis
    by (intro conjI) (rule h0, rule h1, rule h1b, rule nf, rule c, rule h2, rule h3,
        rule concl(1), rule concl(2), rule second)
qed

text \<open>
  Claim C6 as stated fails for a function that is already flagged resolved from an earlier
  use: \<open>resolve(["a", "b"], f)\<close> before either name is registered does not leave it
  pending, and registering both names afterwards never invokes it.
\<close>

theorem C6_reused_resolver_counterexample:
  "\<not> isl (run [Register (JStr ''c'') (JNum 1),
               Resolve (NameList [''c'']) (JFun 0),
               Resolve (NameList [''a'', ''b'']) (JFun 0),
               Register (JStr ''a'') (JNum 1),
               Register (JStr ''b'') (JNum 2)] new_injector) \<and>
   trace (run [Register (JStr ''c'') (JNum 1),
               Resolve (NameList [''c'']) (JFun 0),
               Resolve (NameList [''a'', ''b'']) (JFun 0),
               Register (JStr ''a'') (JNum 1),
               Register (JStr ''b'') (JNum 2)] new_injector) =
     [\<lparr> callee = 0, this_arg = [(''c'', JNum 1)], arguments = [JNum 1] \<rparr>] \<and>
   pending (final (run [Register (JStr ''c'') (JNum 1),
                        Resolve (NameList [''c'']) (JFun 0),
                        Resolve (NameList [''a'', ''b'']) (JFun 0)] new_injector)) ''a'' = [] \<and>
   pending (final (run [Register (JStr ''c'') (JNum 1),
                        Resolve (NameList [''c'']) (JFun 0),
                        Resolve (NameList [''a'', ''b'']) (JFun 0)] new_injector)) ''b'' = []"
  by code_simp

end
